theory Spec2Isabelle
  imports Main "HOL-Library.Word" "HOL-Library.Sublist"
begin

section \<open>clog: the canonical logging context (canonical.go)\<close>

text \<open>
  The Go package keeps one \<^verbatim>\<open>*canonical\<close> per unit of work. It is reached through a
  \<^verbatim>\<open>context.Context\<close> under the key \<^verbatim>\<open>"__clog__"\<close>, holds an insertion-ordered map
  from string to \<^verbatim>\<open>any\<close>, and is mutated in place by \<^verbatim>\<open>set\<close>, \<^verbatim>\<open>add\<close> and
  \<^verbatim>\<open>addFloat\<close>. The model below follows canonical.go function by function.
\<close>

subsection \<open>Values\<close>

text \<open>
  Go's \<^verbatim>\<open>int\<close> is taken at 64 bits, so \<^verbatim>\<open>vv+value\<close> wraps around. A
  \<^verbatim>\<open>float64\<close> is its IEEE 754 bit pattern; its arithmetic and its decimal text are
  not computed here but taken from \<open>go_lib\<close> below.
\<close>

type_synonym int_go = "64 word"
type_synonym float64 = "64 word"

text \<open>
  What the program stores in an \<^verbatim>\<open>any\<close>: a string, an int, a float64 or a pointer to a
  nested ordered map. A nested map is created inside \<^verbatim>\<open>set\<close>/\<^verbatim>\<open>add\<close>/\<^verbatim>\<open>addFloat\<close>,
  stored in exactly one slot of its parent and never handed out, so the maps form a
  tree and the pointer is modelled by the map it points to.
\<close>

datatype val =
    VString string
  | VInt int_go
  | VFloat float64
  | VNode "(string \<times> val) list"

type_synonym node = "(string \<times> val) list"

fun is_node :: "val \<Rightarrow> bool" where
  "is_node (VNode n) = True"
| "is_node v = False"

subsection \<open>The ordered map of github.com/wk8/go-ordered-map\<close>

text \<open>
  Modelled from the spec: the ordered map is a dependency whose code is not part of
  the repository. Section 3 of the spec describes it: keys are unique, iteration order
  is the order of first insertion, and overwriting an existing key keeps its place.
  \<open>om_Get\<close> is \<^verbatim>\<open>Get\<close> (\<open>None\<close> for \<^verbatim>\<open>ok == false\<close>), \<open>om_Set\<close> is \<^verbatim>\<open>Set\<close>,
  \<open>om_New\<close> is \<^verbatim>\<open>orderedmap.New\<close>.
\<close>

definition om_New :: node where
  "om_New = []"

fun om_Get :: "string \<Rightarrow> node \<Rightarrow> val option" where
  "om_Get k [] = None"
| "om_Get k ((k', v) # rest) = (if k' = k then Some v else om_Get k rest)"

fun om_Set :: "string \<Rightarrow> val \<Rightarrow> node \<Rightarrow> node" where
  "om_Set k v [] = [(k, v)]"
| "om_Set k v ((k', v') # rest) =
     (if k' = k then (k, v) # rest else (k', v') # om_Set k v rest)"

subsection \<open>What the program takes from the Go standard library\<close>

text \<open>
  \<^verbatim>\<open>strings.ToLower\<close> on a string with a byte above 127, the addition of two float64
  and the JSON text of a string and of a finite float64 are library behaviour that
  canonical.go calls and does not define. They are parameters of the model.
\<close>

record go_lib =
  unicode_ToLower :: "string \<Rightarrow> string"
  float64_add :: "float64 \<Rightarrow> float64 \<Rightarrow> float64"
  json_key :: "string \<Rightarrow> string"
  json_string :: "string \<Rightarrow> string"
  json_finite_float :: "float64 \<Rightarrow> string"

text \<open>A panic of the Go runtime.\<close>

datatype panic = TypeAssertionFailed | IndexOutOfRange

subsection \<open>normalizeKey\<close>

definition isASCII :: "char \<Rightarrow> bool" where
  "isASCII c = ((of_char c :: nat) < 128)"

definition lowerASCII :: "char \<Rightarrow> char" where
  "lowerASCII c =
     (if (65::nat) \<le> of_char c \<and> (of_char c :: nat) \<le> 90
      then char_of ((of_char c :: nat) + 32) else c)"

text \<open>
  \<^verbatim>\<open>strings.ToLower\<close>: an all-ASCII string has its letters A-Z moved to a-z byte by
  byte; any other string goes through the Unicode mapping of the library.
\<close>

definition strings_ToLower :: "go_lib \<Rightarrow> string \<Rightarrow> string" where
  "strings_ToLower L s =
     (if list_all isASCII s then map lowerASCII s else unicode_ToLower L s)"

text \<open>
  \<^verbatim>\<open>strings.Split(s, ".")\<close>: the pieces of \<open>s\<close> between the dots, so one piece more
  than there are dots, and \<open>[[]]\<close> for the empty string.
\<close>

fun strings_Split_dot :: "string \<Rightarrow> string list" where
  "strings_Split_dot [] = [[]]"
| "strings_Split_dot (c # cs) =
     (if c = CHR ''.'' then [] # strings_Split_dot cs
      else (case strings_Split_dot cs of
              [] \<Rightarrow> [[c]]
            | w # ws \<Rightarrow> (c # w) # ws))"

definition normalizeKey :: "go_lib \<Rightarrow> string \<Rightarrow> string list" where
  "normalizeKey L key = strings_Split_dot (strings_ToLower L key)"

subsection \<open>set, add, addFloat\<close>

text \<open>
  Each of the three walks \<open>parts\<close> down the tree and mutates it in place. The model
  returns the tree after the call together with the panic that ended the call, if one
  did: a mutation made before a panic stays. \<^verbatim>\<open>parts[0]\<close> on an empty slice and
  \<^verbatim>\<open>val.(*orderedmap.OrderedMap[string, any])\<close> on a value that is no map are the
  two places that can panic.

  Where a segment is absent the source stores the new, still empty map in the parent
  first and lets the recursive call fill it through the pointer; with the map modelled by
  its value, the parent holds the filled map after the call. Where the segment holds a map
  the recursive call changes that map in place, which leaves its slot in the parent where
  it was: \<open>om_Set\<close> on a key that is present does the same. In \<^verbatim>\<open>add\<close> and
  \<^verbatim>\<open>addFloat\<close> an absent leaf leaves \<^verbatim>\<open>val\<close> nil, so the type assertion that follows
  the first \<^verbatim>\<open>state.Set\<close> fails and only the delta is stored.
\<close>

fun set_c :: "string list \<Rightarrow> node \<Rightarrow> val \<Rightarrow> node \<times> panic option" where
  "set_c [] state v = (state, Some IndexOutOfRange)"
| "set_c [p] state v = (om_Set p v state, None)"
| "set_c (p # ps) state v =
     (case om_Get p state of
        None \<Rightarrow>
          (case set_c ps om_New v of
             (n', r) \<Rightarrow> (om_Set p (VNode n') state, r))
      | Some (VNode n) \<Rightarrow>
          (case set_c ps n v of
             (n', r) \<Rightarrow> (om_Set p (VNode n') state, r))
      | Some _ \<Rightarrow> (state, Some TypeAssertionFailed))"

fun add_c :: "string list \<Rightarrow> node \<Rightarrow> int_go \<Rightarrow> node \<times> panic option" where
  "add_c [] state d = (state, Some IndexOutOfRange)"
| "add_c [p] state d =
     (case om_Get p state of
        None \<Rightarrow> (om_Set p (VInt d) state, None)
      | Some (VInt vv) \<Rightarrow> (om_Set p (VInt (vv + d)) state, None)
      | Some _ \<Rightarrow> (state, None))"
| "add_c (p # ps) state d =
     (case om_Get p state of
        None \<Rightarrow>
          (case add_c ps om_New d of
             (n', r) \<Rightarrow> (om_Set p (VNode n') state, r))
      | Some (VNode n) \<Rightarrow>
          (case add_c ps n d of
             (n', r) \<Rightarrow> (om_Set p (VNode n') state, r))
      | Some _ \<Rightarrow> (state, Some TypeAssertionFailed))"

fun addFloat :: "go_lib \<Rightarrow> string list \<Rightarrow> node \<Rightarrow> float64 \<Rightarrow> node \<times> panic option" where
  "addFloat L [] state d = (state, Some IndexOutOfRange)"
| "addFloat L [p] state d =
     (case om_Get p state of
        None \<Rightarrow> (om_Set p (VFloat d) state, None)
      | Some (VFloat vv) \<Rightarrow> (om_Set p (VFloat (float64_add L vv d)) state, None)
      | Some _ \<Rightarrow> (state, None))"
| "addFloat L (p # ps) state d =
     (case om_Get p state of
        None \<Rightarrow>
          (case addFloat L ps om_New d of
             (n', r) \<Rightarrow> (om_Set p (VNode n') state, r))
      | Some (VNode n) \<Rightarrow>
          (case addFloat L ps n d of
             (n', r) \<Rightarrow> (om_Set p (VNode n') state, r))
      | Some _ \<Rightarrow> (state, Some TypeAssertionFailed))"

subsection \<open>The methods of canonical\<close>

record canonical =
  c_values :: node

definition newCanonical :: canonical where
  "newCanonical = \<lparr> c_values = om_New \<rparr>"

definition on_values :: "(node \<Rightarrow> node \<times> panic option) \<Rightarrow> canonical \<Rightarrow> canonical \<times> panic option" where
  "on_values f c = (case f (c_values c) of (n, r) \<Rightarrow> (c\<lparr> c_values := n \<rparr>, r))"

definition setString :: "go_lib \<Rightarrow> string \<Rightarrow> string \<Rightarrow> canonical \<Rightarrow> canonical \<times> panic option" where
  "setString L key v c = on_values (\<lambda>st. set_c (normalizeKey L key) st (VString v)) c"

definition setInt :: "go_lib \<Rightarrow> string \<Rightarrow> int_go \<Rightarrow> canonical \<Rightarrow> canonical \<times> panic option" where
  "setInt L key v c = on_values (\<lambda>st. set_c (normalizeKey L key) st (VInt v)) c"

definition setFloat64 :: "go_lib \<Rightarrow> string \<Rightarrow> float64 \<Rightarrow> canonical \<Rightarrow> canonical \<times> panic option" where
  "setFloat64 L key v c = on_values (\<lambda>st. set_c (normalizeKey L key) st (VFloat v)) c"

definition addInt :: "go_lib \<Rightarrow> string \<Rightarrow> int_go \<Rightarrow> canonical \<Rightarrow> canonical \<times> panic option" where
  "addInt L key d c = on_values (\<lambda>st. add_c (normalizeKey L key) st d) c"

definition addFloat64 :: "go_lib \<Rightarrow> string \<Rightarrow> float64 \<Rightarrow> canonical \<Rightarrow> canonical \<times> panic option" where
  "addFloat64 L key d c = on_values (\<lambda>st. addFloat L (normalizeKey L key) st d) c"

subsection \<open>string: the JSON text\<close>

text \<open>\<^verbatim>\<open>strconv\<close>'s decimal text of an int, as \<^verbatim>\<open>encoding/json\<close> writes it.\<close>

definition digit_char :: "nat \<Rightarrow> char" where
  "digit_char d = char_of (48 + d)"

function decimal :: "nat \<Rightarrow> string" where
  "decimal n = (if n < 10 then [digit_char n] else decimal (n div 10) @ [digit_char (n mod 10)])"
  by pat_completeness auto
termination
  by (relation "measure id") auto

definition json_int :: "int_go \<Rightarrow> string" where
  "json_int i =
     (if sint i < 0 then CHR ''-'' # decimal (nat (- sint i)) else decimal (nat (sint i)))"

text \<open>
  \<^verbatim>\<open>encoding/json\<close> refuses a float64 that is NaN or an infinity (an
  \<^verbatim>\<open>UnsupportedValueError\<close>): those are the bit patterns whose eleven exponent bits
  are all set.
\<close>

definition float64_exceptional :: "float64 \<Rightarrow> bool" where
  "float64_exceptional f = (and (drop_bit 52 f) 2047 = 2047)"

definition json_float64 :: "go_lib \<Rightarrow> float64 \<Rightarrow> string option" where
  "json_float64 L f = (if float64_exceptional f then None else Some (json_finite_float L f))"

text \<open>
  How deep the objects of a value nest: 0 for a scalar, 1 for a map of scalars.
  \<^verbatim>\<open>encoding/json\<close> checks the text that a \<^verbatim>\<open>MarshalJSON\<close> method returns and refuses
  it ("exceeded max depth") when it nests deeper than \<^verbatim>\<open>maxNestingDepth\<close>, 10000.
\<close>

fun nesting :: "val \<Rightarrow> nat"
  and nesting_members :: "(string \<times> val) list \<Rightarrow> nat" where
  "nesting (VString s) = 0"
| "nesting (VInt i) = 0"
| "nesting (VFloat f) = 0"
| "nesting (VNode n) = Suc (nesting_members n)"
| "nesting_members [] = 0"
| "nesting_members ((k, v) # rest) = max (nesting v) (nesting_members rest)"

definition maxNestingDepth :: nat where
  "maxNestingDepth = 10000"

text \<open>
  Modelled from the spec: \<^verbatim>\<open>json.Marshal\<close> of the ordered map is the library's, not
  the repository's. Section 4.4 of the spec: an object whose keys come in the map's
  order, each with the JSON text of its scalar or, for a nested map, the nested object.
  \<open>None\<close> is the error that \<^verbatim>\<open>json.Marshal\<close> returns beside a nil byte slice: a member
  failed (a NaN or an infinity somewhere below), or the object nests too deep. The map's
  \<^verbatim>\<open>MarshalJSON\<close> calls \<^verbatim>\<open>json.Marshal\<close> on every value, so the depth is checked at every
  nested map.
\<close>

fun json_value :: "go_lib \<Rightarrow> val \<Rightarrow> string option"
  and json_members :: "go_lib \<Rightarrow> (string \<times> val) list \<Rightarrow> string option" where
  "json_value L (VString s) = Some (json_string L s)"
| "json_value L (VInt i) = Some (json_int i)"
| "json_value L (VFloat f) = json_float64 L f"
| "json_value L (VNode n) =
     (case json_members L n of
        None \<Rightarrow> None
      | Some body \<Rightarrow>
          (if maxNestingDepth < nesting (VNode n) then None
           else Some (''{'' @ body @ ''}'')))"
| "json_members L [] = Some []"
| "json_members L ((k, v) # rest) =
     (case json_value L v of
        None \<Rightarrow> None
      | Some tv \<Rightarrow>
          (case json_members L rest of
             None \<Rightarrow> None
           | Some tr \<Rightarrow>
               Some (json_key L k @ '':'' @ tv @ (if rest = [] then [] else '','' @ tr))))"

definition json_Marshal :: "go_lib \<Rightarrow> node \<Rightarrow> string option" where
  "json_Marshal L n = json_value L (VNode n)"

text \<open>\<^verbatim>\<open>b, _ := json.Marshal(c.values); return string(b)\<close>: the error is dropped and the
  nil slice becomes the empty string.\<close>

definition string_c :: "go_lib \<Rightarrow> canonical \<Rightarrow> string" where
  "string_c L c = (case json_Marshal L (c_values c) of None \<Rightarrow> [] | Some b \<Rightarrow> b)"

subsection \<open>The carrier: context.Context\<close>

text \<open>
  A context is the chain of \<^verbatim>\<open>context.WithValue\<close> frames above
  \<^verbatim>\<open>context.Background()\<close>, newest first; \<^verbatim>\<open>Value\<close> returns the value of the newest
  frame with the key, or nil (\<open>None\<close>). A value is a \<^verbatim>\<open>*canonical\<close>, modelled by its
  address, or something else that some caller put there (the repository's own test
  stores the string \<^verbatim>\<open>"bar"\<close> under \<^verbatim>\<open>"foo"\<close>). Keys are strings: \<^verbatim>\<open>contextKey\<close> is an
  untyped string constant, so a key of another type never equals it.
\<close>

datatype any_value = PtrCanonical nat | OtherValue string

type_synonym Context = "(string \<times> any_value) list"

definition contextKey :: string where
  "contextKey = ''__clog__''"

definition Background :: Context where
  "Background = []"

definition WithValue :: "Context \<Rightarrow> string \<Rightarrow> any_value \<Rightarrow> Context" where
  "WithValue ctx k v = (k, v) # ctx"

fun Value :: "Context \<Rightarrow> string \<Rightarrow> any_value option" where
  "Value [] k = None"
| "Value ((k', v) # ctx) k = (if k' = k then Some v else Value ctx k)"

text \<open>
  The heap of \<^verbatim>\<open>canonical\<close> structs: \<open>heap w a\<close> is the struct at address \<open>a\<close>, and
  \<open>next_ref w\<close> is the address the next allocation returns.
\<close>

record world =
  heap :: "nat \<Rightarrow> canonical"
  next_ref :: nat

definition Init :: "Context \<Rightarrow> world \<Rightarrow> Context \<times> world" where
  "Init ctx w =
     (case Value ctx contextKey of
        None \<Rightarrow>
          (WithValue ctx contextKey (PtrCanonical (next_ref w)),
           w\<lparr> heap := (heap w)(next_ref w := newCanonical), next_ref := Suc (next_ref w) \<rparr>)
      | Some v \<Rightarrow> (ctx, w))"

text \<open>
  \<^verbatim>\<open>MarshalJSON\<close> is given the same shape as the accessors, the text it returns paired
  with the world after the call, so that what it does to the heap can be stated.
\<close>

definition MarshalJSON :: "go_lib \<Rightarrow> Context \<Rightarrow> world \<Rightarrow> string \<times> world" where
  "MarshalJSON L ctx w =
     (case Value ctx contextKey of
        Some (PtrCanonical a) \<Rightarrow> (string_c L (heap w a), w)
      | _ \<Rightarrow> ([], w))"

text \<open>The guard shared by the five accessors:
  \<^verbatim>\<open>if c, ok := ctx.Value(contextKey).(*canonical); ok { ... }\<close>.\<close>

definition with_canonical ::
  "Context \<Rightarrow> (canonical \<Rightarrow> canonical \<times> panic option) \<Rightarrow> world \<Rightarrow> world \<times> panic option" where
  "with_canonical ctx f w =
     (case Value ctx contextKey of
        Some (PtrCanonical a) \<Rightarrow>
          (case f (heap w a) of (c', r) \<Rightarrow> (w\<lparr> heap := (heap w)(a := c') \<rparr>, r))
      | _ \<Rightarrow> (w, None))"

definition SetString :: "go_lib \<Rightarrow> Context \<Rightarrow> string \<Rightarrow> string \<Rightarrow> world \<Rightarrow> world \<times> panic option" where
  "SetString L ctx key v w = with_canonical ctx (setString L key v) w"

definition SetInt :: "go_lib \<Rightarrow> Context \<Rightarrow> string \<Rightarrow> int_go \<Rightarrow> world \<Rightarrow> world \<times> panic option" where
  "SetInt L ctx key v w = with_canonical ctx (setInt L key v) w"

definition SetFloat64 :: "go_lib \<Rightarrow> Context \<Rightarrow> string \<Rightarrow> float64 \<Rightarrow> world \<Rightarrow> world \<times> panic option" where
  "SetFloat64 L ctx key v w = with_canonical ctx (setFloat64 L key v) w"

definition AddInt :: "go_lib \<Rightarrow> Context \<Rightarrow> string \<Rightarrow> int_go \<Rightarrow> world \<Rightarrow> world \<times> panic option" where
  "AddInt L ctx key d w = with_canonical ctx (addInt L key d) w"

definition AddFloat64 :: "go_lib \<Rightarrow> Context \<Rightarrow> string \<Rightarrow> float64 \<Rightarrow> world \<Rightarrow> world \<times> panic option" where
  "AddFloat64 L ctx key d w = with_canonical ctx (addFloat64 L key d) w"

subsection \<open>Sequences of calls\<close>

text \<open>
  A caller's program, as far as the store sees it: a list of calls on one carrier,
  run in order; a panic ends the run (it unwinds the caller).
\<close>

datatype call =
    CallSetString string string
  | CallSetInt string int_go
  | CallSetFloat64 string float64
  | CallAddInt string int_go
  | CallAddFloat64 string float64

fun exec :: "go_lib \<Rightarrow> Context \<Rightarrow> call \<Rightarrow> world \<Rightarrow> world \<times> panic option" where
  "exec L ctx (CallSetString k v) w = SetString L ctx k v w"
| "exec L ctx (CallSetInt k v) w = SetInt L ctx k v w"
| "exec L ctx (CallSetFloat64 k v) w = SetFloat64 L ctx k v w"
| "exec L ctx (CallAddInt k d) w = AddInt L ctx k d w"
| "exec L ctx (CallAddFloat64 k d) w = AddFloat64 L ctx k d w"

text \<open>The three \<^verbatim>\<open>Set\<close> calls, the key of a call and the value a \<^verbatim>\<open>Set\<close> call stores.\<close>

fun is_set :: "call \<Rightarrow> bool" where
  "is_set (CallSetString k v) = True"
| "is_set (CallSetInt k v) = True"
| "is_set (CallSetFloat64 k v) = True"
| "is_set c = False"

fun call_key :: "call \<Rightarrow> string" where
  "call_key (CallSetString k v) = k"
| "call_key (CallSetInt k v) = k"
| "call_key (CallSetFloat64 k v) = k"
| "call_key (CallAddInt k d) = k"
| "call_key (CallAddFloat64 k d) = k"

fun call_val :: "call \<Rightarrow> val" where
  "call_val (CallSetString k v) = VString v"
| "call_val (CallSetInt k v) = VInt v"
| "call_val (CallSetFloat64 k v) = VFloat v"
| "call_val (CallAddInt k d) = VInt d"
| "call_val (CallAddFloat64 k d) = VFloat d"

fun run :: "go_lib \<Rightarrow> Context \<Rightarrow> call list \<Rightarrow> world \<Rightarrow> world \<times> panic option" where
  "run L ctx [] w = (w, None)"
| "run L ctx (c # cs) w =
     (case exec L ctx c w of
        (w', None) \<Rightarrow> run L ctx cs w'
      | (w', Some e) \<Rightarrow> (w', Some e))"

subsection \<open>Concrete inputs\<close>

text \<open>
  A library instance for ASCII text, used to evaluate concrete examples. It writes a key
  or a string between double quotes, with \<^verbatim>\<open><\<close>, \<^verbatim>\<open>>\<close> and \<^verbatim>\<open>&\<close> as the escapes
  u003c, u003e and u0026 behind a backslash, and a double quote or a backslash behind a
  backslash, as \<^verbatim>\<open>encoding/json\<close> does; it is not meant for control characters or bytes
  above 127, and the examples below have none. Its float fields are placeholders and no
  example below depends on them. \<open>empty_world\<close> is the heap before anything is allocated.
\<close>

definition json_escape_ascii :: "char \<Rightarrow> string" where
  "json_escape_ascii c =
     (if c = CHR ''<'' then CHR 0x5C # ''u003c''
      else if c = CHR ''>'' then CHR 0x5C # ''u003e''
      else if c = CHR ''&'' then CHR 0x5C # ''u0026''
      else if c = CHR 0x22 \<or> c = CHR 0x5C then [CHR 0x5C, c]
      else [c])"

definition json_quote_ascii :: "string \<Rightarrow> string" where
  "json_quote_ascii s = CHR 0x22 # concat (map json_escape_ascii s) @ [CHR 0x22]"

definition ascii_lib :: go_lib where
  "ascii_lib = \<lparr> unicode_ToLower = (\<lambda>s. s),
                 float64_add = (\<lambda>a b. a),
                 json_key = json_quote_ascii,
                 json_string = json_quote_ascii,
                 json_finite_float = (\<lambda>f. ''0'') \<rparr>"

definition empty_world :: world where
  "empty_world = \<lparr> heap = (\<lambda>a. newCanonical), next_ref = 0 \<rparr>"

text \<open>\<^verbatim>\<open>ctx := clog.Init(context.Background())\<close>, as every test of the repository starts.\<close>

definition fresh_ctx :: Context where
  "fresh_ctx = fst (Init Background empty_world)"

definition fresh_world :: world where
  "fresh_world = snd (Init Background empty_world)"

subsection \<open>Reading the tree\<close>

text \<open>
  \<open>lookup st parts\<close> is the value found by following \<open>parts\<close> from the root through
  nested maps; the empty path is the root itself. \<open>scalar_on_path st parts\<close> says that
  some proper prefix of \<open>parts\<close> leads to a value that is no map: an intermediate
  segment holds a scalar. \<open>store ctx w\<close> is the map of the \<^verbatim>\<open>*canonical\<close> attached to the
  carrier, if one is attached.
\<close>


fun lookup_val :: "val \<Rightarrow> string list \<Rightarrow> val option" where
  "lookup_val v [] = Some v"
| "lookup_val (VNode n) (p # ps) =
     (case om_Get p n of None \<Rightarrow> None | Some u \<Rightarrow> lookup_val u ps)"
| "lookup_val v (p # ps) = None"

definition lookup :: "node \<Rightarrow> string list \<Rightarrow> val option" where
  "lookup st parts = lookup_val (VNode st) parts"

definition blocked :: "val \<Rightarrow> string list \<Rightarrow> bool" where
  "blocked v parts =
     list_ex (\<lambda>n. case lookup_val v (take n parts) of Some u \<Rightarrow> \<not> is_node u | None \<Rightarrow> False)
       [0..<length parts]"

definition scalar_on_path :: "node \<Rightarrow> string list \<Rightarrow> bool" where
  "scalar_on_path st parts = blocked (VNode st) parts"

definition store :: "Context \<Rightarrow> world \<Rightarrow> node option" where
  "store ctx w =
     (case Value ctx contextKey of
        Some (PtrCanonical a) \<Rightarrow> Some (c_values (heap w a))
      | _ \<Rightarrow> None)"

text \<open>The keys, in the map's order, of the map found at a path (none if no map is there).\<close>

definition keys_at :: "node \<Rightarrow> string list \<Rightarrow> string list" where
  "keys_at st path = (case lookup st path of Some (VNode n) \<Rightarrow> map fst n | _ \<Rightarrow> [])"

subsection \<open>What a sequence of Set calls should leave\<close>

text \<open>
  The words of the claim about sequences of \<^verbatim>\<open>Set\<close> calls: \<open>path_of L c\<close> is the
  normalized key of a call; \<open>prefix_free\<close> says that of any two paths of a list neither
  is a prefix of the other (so they are distinct, and none runs through another's leaf);
  \<open>first_seen xs\<close> lists the elements of \<open>xs\<close> once each, in the order of their first
  occurrence.
\<close>

definition path_of :: "go_lib \<Rightarrow> call \<Rightarrow> string list" where
  "path_of L c = normalizeKey L (call_key c)"

definition incomparable :: "string list \<Rightarrow> string list \<Rightarrow> bool" where
  "incomparable p q = (\<not> prefix p q \<and> \<not> prefix q p)"

definition prefix_free :: "string list list \<Rightarrow> bool" where
  "prefix_free ps = sorted_wrt incomparable ps"

definition first_seen :: "'a list \<Rightarrow> 'a list" where
  "first_seen xs = rev (remdups (rev xs))"

section \<open>Properties\<close>

subsection \<open>The ordered map and the walk\<close>

lemma om_Get_Set_same [simp]: "om_Get k (om_Set k v st) = Some v"
  by (induction st) auto

lemma om_Get_Set_other [simp]: "k' \<noteq> k \<Longrightarrow> om_Get k' (om_Set k v st) = om_Get k' st"
  by (induction st) auto

lemma om_Set_unchanged: "om_Get k st = Some v \<Longrightarrow> om_Set k v st = st"
  by (induction st) (auto split: if_splits)

lemma list_ex_upt_Suc:
  "list_ex P [0..<Suc k] = (P 0 \<or> list_ex (\<lambda>n. P (Suc n)) [0..<k])"
proof -
  have "(\<exists>x<Suc k. P x) = (P 0 \<or> (\<exists>n<k. P (Suc n)))"
    by (auto simp: less_Suc_eq_0_disj)
  then show ?thesis
    by (simp add: list_ex_iff Bex_def del: upt_Suc)
qed

lemma blocked_Nil [simp]: "blocked v [] = False"
  by (simp add: blocked_def)

lemma blocked_Cons:
  "blocked v (p # ps) =
     (case v of
        VNode n \<Rightarrow> (case om_Get p n of None \<Rightarrow> False | Some u \<Rightarrow> blocked u ps)
      | _ \<Rightarrow> True)"
proof -
  have "blocked v (p # ps) =
      ((case lookup_val v [] of Some u \<Rightarrow> \<not> is_node u | None \<Rightarrow> False) \<or>
       list_ex (\<lambda>n. case lookup_val v (p # take n ps) of Some u \<Rightarrow> \<not> is_node u | None \<Rightarrow> False)
         [0..<length ps])"
    unfolding blocked_def by (simp add: list_ex_upt_Suc del: upt_Suc)
  then show ?thesis
    by (cases v) (simp_all add: blocked_def list_ex_iff split: option.splits)
qed

lemma set_c_blocked:
  "blocked (VNode st) parts \<Longrightarrow> set_c parts st v = (st, Some TypeAssertionFailed)"
proof (induction parts st v rule: set_c.induct)
  case (1 state v)
  then show ?case by simp
next
  case (2 p state v)
  then show ?case by (simp add: blocked_Cons split: option.splits)
next
  case (3 p q qs state v)
  then show ?case
    by (auto simp: blocked_Cons om_Set_unchanged split: option.splits val.splits)
qed

lemma set_c_not_blocked:
  "parts \<noteq> [] \<Longrightarrow> \<not> blocked (VNode st) parts \<Longrightarrow> snd (set_c parts st v) = None"
proof (induction parts st v rule: set_c.induct)
  case (3 p q qs state v)
  then show ?case
    by (auto simp: blocked_Cons om_New_def split: option.splits val.splits prod.splits)
qed simp_all

lemma lookup_set_c:
  "parts \<noteq> [] \<Longrightarrow> \<not> blocked (VNode st) parts \<Longrightarrow>
   lookup_val (VNode (fst (set_c parts st v))) parts = Some v"
proof (induction parts st v rule: set_c.induct)
  case (3 p q qs state v)
  then show ?case
    by (auto simp: blocked_Cons om_New_def split: option.splits val.splits prod.splits)
qed simp_all

lemma lookup_Cons:
  "lookup st (p # ps) = (case om_Get p st of None \<Rightarrow> None | Some u \<Rightarrow> lookup_val u ps)"
  by (simp add: lookup_def)

lemma add_c_as_set_c:
  "parts \<noteq> [] \<Longrightarrow>
   add_c parts st d =
     (case lookup st parts of
        None \<Rightarrow> set_c parts st (VInt d)
      | Some (VInt e) \<Rightarrow> set_c parts st (VInt (e + d))
      | Some u \<Rightarrow> (st, None))"
proof (induction parts st d rule: add_c.induct)
  case (1 state d)
  then show ?case by simp
next
  case (2 p state d)
  then show ?case
    by (simp add: lookup_Cons split: option.splits val.splits)
next
  case (3 p q qs state d)
  show ?case
  proof (cases "om_Get p state")
    case None
    then show ?thesis using 3(1)
      by (simp add: lookup_Cons om_New_def)
  next
    case (Some u)
    show ?thesis
    proof (cases u)
      case (VNode n)
      then show ?thesis using Some 3(2)[of u n]
        by (simp add: lookup_Cons lookup_def om_Set_unchanged split: option.splits val.splits)
    qed (use Some in \<open>simp_all add: lookup_Cons\<close>)
  qed
qed

lemma addFloat_as_set_c:
  "parts \<noteq> [] \<Longrightarrow>
   addFloat L parts st d =
     (case lookup st parts of
        None \<Rightarrow> set_c parts st (VFloat d)
      | Some (VFloat e) \<Rightarrow> set_c parts st (VFloat (float64_add L e d))
      | Some u \<Rightarrow> (st, None))"
proof (induction L parts st d rule: addFloat.induct)
  case (1 L state d)
  then show ?case by simp
next
  case (2 L p state d)
  then show ?case
    by (simp add: lookup_Cons split: option.splits val.splits)
next
  case (3 L p q qs state d)
  show ?case
  proof (cases "om_Get p state")
    case None
    then show ?thesis using 3(1)
      by (simp add: lookup_Cons om_New_def)
  next
    case (Some u)
    show ?thesis
    proof (cases u)
      case (VNode n)
      then show ?thesis using Some 3(2)[of u n]
        by (simp add: lookup_Cons lookup_def om_Set_unchanged split: option.splits val.splits)
    qed (use Some in \<open>simp_all add: lookup_Cons\<close>)
  qed
qed

subsection \<open>Keys and carriers\<close>

lemma strings_Split_dot_not_Nil [simp]: "strings_Split_dot s \<noteq> []"
  by (induction s) (auto split: list.splits)

lemma normalizeKey_not_Nil [simp]: "normalizeKey L key \<noteq> []"
  by (simp add: normalizeKey_def)

lemma with_canonical_no_store:
  "store ctx w = None \<Longrightarrow> with_canonical ctx f w = (w, None)"
  by (auto simp: store_def with_canonical_def split: option.splits any_value.splits)

lemma with_canonical_store:
  assumes "store ctx w = Some st"
  shows "store ctx (fst (with_canonical ctx (on_values f) w)) = Some (fst (f st))"
    and "snd (with_canonical ctx (on_values f) w) = snd (f st)"
  using assms
  by (auto simp: store_def with_canonical_def on_values_def
           split: option.splits any_value.splits prod.splits)

lemma with_canonical_unchanged:
  assumes "store ctx w = Some st" and "fst (f st) = st"
  shows "fst (with_canonical ctx (on_values f) w) = w"
  using assms
  by (auto simp: store_def with_canonical_def on_values_def
           split: option.splits any_value.splits prod.splits)

lemma MarshalJSON_store:
  "fst (MarshalJSON L ctx w) =
     (case store ctx w of
        None \<Rightarrow> []
      | Some st \<Rightarrow> (case json_Marshal L st of None \<Rightarrow> [] | Some b \<Rightarrow> b))"
  by (simp add: MarshalJSON_def store_def string_c_def split: option.splits any_value.splits)

lemma MarshalJSON_world: "snd (MarshalJSON L ctx w) = w"
  by (simp add: MarshalJSON_def split: option.splits any_value.splits)

lemma methods_on_values:
  "setString L key s = on_values (\<lambda>st. set_c (normalizeKey L key) st (VString s))"
  "setInt L key i = on_values (\<lambda>st. set_c (normalizeKey L key) st (VInt i))"
  "setFloat64 L key f = on_values (\<lambda>st. set_c (normalizeKey L key) st (VFloat f))"
  "addInt L key i = on_values (\<lambda>st. add_c (normalizeKey L key) st i)"
  "addFloat64 L key f = on_values (\<lambda>st. addFloat L (normalizeKey L key) st f)"
  by (rule ext, simp add: setString_def setInt_def setFloat64_def addInt_def addFloat64_def)+

lemma set_calls_blocked:
  assumes "store ctx w = Some st" and "scalar_on_path st (normalizeKey L key)"
  shows "with_canonical ctx (on_values (\<lambda>st. set_c (normalizeKey L key) st v)) w
           = (w, Some TypeAssertionFailed)"
proof -
  let ?f = "\<lambda>st. set_c (normalizeKey L key) st v"
  have f: "?f st = (st, Some TypeAssertionFailed)"
    using assms(2) by (simp add: scalar_on_path_def set_c_blocked)
  have "fst (with_canonical ctx (on_values ?f) w) = w"
    using assms(1) f by (simp add: with_canonical_unchanged)
  moreover have "snd (with_canonical ctx (on_values ?f) w) = Some TypeAssertionFailed"
    using with_canonical_store(2)[OF assms(1), of ?f] f by simp
  ultimately show ?thesis
    by (simp add: prod_eq_iff)
qed

lemma adds_on_store:
  assumes "store ctx w = Some st"
  shows "store ctx (fst (AddInt L ctx key d w)) = Some (fst (add_c (normalizeKey L key) st d))"
    and "snd (AddInt L ctx key d w) = snd (add_c (normalizeKey L key) st d)"
    and "store ctx (fst (AddFloat64 L ctx key f w))
           = Some (fst (addFloat L (normalizeKey L key) st f))"
    and "snd (AddFloat64 L ctx key f w) = snd (addFloat L (normalizeKey L key) st f)"
  using with_canonical_store[OF assms]
  by (simp_all add: AddInt_def AddFloat64_def methods_on_values)

lemma adds_unchanged:
  assumes "store ctx w = Some st"
  shows "fst (add_c (normalizeKey L key) st d) = st \<Longrightarrow> fst (AddInt L ctx key d w) = w"
    and "fst (addFloat L (normalizeKey L key) st f) = st \<Longrightarrow> fst (AddFloat64 L ctx key f w) = w"
  using with_canonical_unchanged[OF assms]
  by (simp_all add: AddInt_def AddFloat64_def methods_on_values)

lemma lookup_set_c':
  "parts \<noteq> [] \<Longrightarrow> \<not> scalar_on_path st parts \<Longrightarrow> lookup (fst (set_c parts st v)) parts = Some v"
  by (simp add: lookup_def scalar_on_path_def lookup_set_c)

lemma Init_attached: "store ctx w = Some st \<Longrightarrow> Init ctx w = (ctx, w)"
  by (auto simp: Init_def store_def split: option.splits)

lemma Init_nil:
  assumes "Value ctx contextKey = None"
  shows "store (fst (Init ctx w)) (snd (Init ctx w)) = Some om_New"
    and "fst (Init ctx w) = WithValue ctx contextKey (PtrCanonical (next_ref w))"
    and "a \<noteq> next_ref w \<Longrightarrow> heap (snd (Init ctx w)) a = heap w a"
  using assms
  by (simp_all add: Init_def store_def WithValue_def newCanonical_def)

subsection \<open>Calls on a carrier with a store\<close>

lemma om_Set_twice [simp]: "om_Set k v2 (om_Set k v1 st) = om_Set k v2 st"
  by (induction st) auto

lemma set_c_twice: "set_c ps (fst (set_c ps st v1)) v2 = set_c ps st v2"
proof (induction ps st v1 rule: set_c.induct)
  case (3 p q qs state v)
  show ?case
  proof (cases "om_Get p state")
    case None
    then show ?thesis using 3(1)
      by (simp add: om_New_def case_prod_beta)
  next
    case (Some u)
    then show ?thesis using 3(2)
      by (cases u) (simp_all add: case_prod_beta)
  qed
qed simp_all

lemma with_canonical_twice:
  "with_canonical ctx (on_values g) (fst (with_canonical ctx (on_values f) w))
     = with_canonical ctx (on_values (\<lambda>st. g (fst (f st)))) w"
  by (simp add: with_canonical_def on_values_def split: option.splits any_value.splits prod.splits)

lemma exec_set:
  "is_set c \<Longrightarrow>
   exec L ctx c w =
     with_canonical ctx (on_values (\<lambda>st. set_c (normalizeKey L (call_key c)) st (call_val c))) w"
  by (cases c) (simp_all add: SetString_def SetInt_def SetFloat64_def methods_on_values)

lemma run_two:
  "run L ctx [c1, c2] w =
     (if snd (exec L ctx c1 w) = None then exec L ctx c2 (fst (exec L ctx c1 w))
      else exec L ctx c1 w)"
  by (auto split: prod.splits option.splits)

lemma sets_on_store:
  assumes "store ctx w = Some st" and "is_set c"
  shows "store ctx (fst (exec L ctx c w))
           = Some (fst (set_c (normalizeKey L (call_key c)) st (call_val c)))"
    and "snd (exec L ctx c w) = snd (set_c (normalizeKey L (call_key c)) st (call_val c))"
  using with_canonical_store[OF assms(1)] assms(2)
  by (simp_all add: exec_set)

lemma set_then_set:
  assumes "is_set c1" and "is_set c2"
    and "normalizeKey L (call_key c1) = normalizeKey L (call_key c2)"
  shows "exec L ctx c2 (fst (exec L ctx c1 w)) = exec L ctx c2 w"
  using assms by (simp add: exec_set with_canonical_twice set_c_twice)

subsection \<open>What set changes and what it leaves\<close>

lemma om_Get_keys: "om_Get k st = Some v \<Longrightarrow> k \<in> set (map fst st)"
  by (induction st) (force split: if_splits)+

lemma om_Get_None_keys: "om_Get k st = None \<Longrightarrow> k \<notin> set (map fst st)"
  by (induction st) (force split: if_splits)+

lemma keys_om_Set:
  "map fst (om_Set k v st) = (if k \<in> set (map fst st) then map fst st else map fst st @ [k])"
  by (induction st) force+

lemma keys_set_c:
  "map fst (fst (set_c (p # ps) st v))
     = (if p \<in> set (map fst st) then map fst st else map fst st @ [p])"
proof (cases ps)
  case Nil
  then show ?thesis by (simp add: keys_om_Set)
next
  case (Cons q qs)
  show ?thesis
  proof (cases "om_Get p st")
    case None
    then show ?thesis using Cons
      by (simp add: keys_om_Set case_prod_beta)
  next
    case (Some u)
    then show ?thesis using Cons om_Get_keys[OF Some]
      by (cases u) (simp_all add: keys_om_Set case_prod_beta)
  qed
qed

lemma keys_at_Nil [simp]: "keys_at st [] = map fst st"
  by (simp add: keys_at_def lookup_def)

lemma keys_at_empty [simp]: "keys_at [] path = []"
  by (cases path) (simp_all add: keys_at_def lookup_def)

lemma keys_at_Cons:
  "keys_at st (p # rest) =
     (case om_Get p st of Some (VNode n) \<Rightarrow> keys_at n rest | _ \<Rightarrow> [])"
  by (cases rest) (auto simp: keys_at_def lookup_def split: option.splits val.splits)

lemma keys_after_set_c:
  "\<not> blocked (VNode st) ps \<Longrightarrow> n < length ps \<Longrightarrow>
   keys_at (fst (set_c ps st v)) (take n ps)
     = (if ps ! n \<in> set (keys_at st (take n ps)) then keys_at st (take n ps)
        else keys_at st (take n ps) @ [ps ! n])"
proof (induction ps st v arbitrary: n rule: set_c.induct)
  case (1 state v)
  then show ?case by simp
next
  case (2 p state v)
  then show ?case by (simp add: keys_om_Set)
next
  case (3 p q qs state v)
  show ?case
  proof (cases n)
    case 0
    then show ?thesis
      using keys_set_c[of p "q # qs" state v] by simp
  next
    case (Suc m)
    then have m: "m < length (q # qs)" using 3(4) by simp
    show ?thesis
    proof (cases "om_Get p state")
      case None
      have nb: "\<not> blocked (VNode om_New) (q # qs)"
        by (simp add: blocked_Cons om_New_def)
      show ?thesis
        using None Suc 3(1)[OF None nb m]
        by (simp add: keys_at_Cons case_prod_beta om_New_def)
    next
      case (Some u)
      show ?thesis
      proof (cases u)
        case (VNode nd)
        have nb: "\<not> blocked (VNode nd) (q # qs)"
          using 3(3) Some VNode by (simp add: blocked_Cons)
        show ?thesis
          using Some VNode Suc 3(2)[OF Some VNode nb m]
          by (simp add: keys_at_Cons case_prod_beta)
      qed (use 3(3) Some in \<open>simp_all add: blocked_Cons\<close>)
    qed
  qed
qed

lemma nodes_after_set_c:
  "\<not> blocked (VNode st) ps \<Longrightarrow> n < length ps \<Longrightarrow>
   \<exists>m. lookup (fst (set_c ps st v)) (take n ps) = Some (VNode m)"
proof (induction ps st v arbitrary: n rule: set_c.induct)
  case (1 state v)
  then show ?case by simp
next
  case (2 p state v)
  then show ?case by (simp add: lookup_def)
next
  case (3 p q qs state v)
  show ?case
  proof (cases n)
    case 0
    then show ?thesis by (simp add: lookup_def)
  next
    case (Suc m)
    then have m: "m < length (q # qs)" using 3(4) by simp
    show ?thesis
    proof (cases "om_Get p state")
      case None
      have nb: "\<not> blocked (VNode om_New) (q # qs)"
        by (simp add: blocked_Cons om_New_def)
      show ?thesis
        using None Suc 3(1)[OF None nb m]
        by (simp add: lookup_def case_prod_beta)
    next
      case (Some u)
      show ?thesis
      proof (cases u)
        case (VNode nd)
        have nb: "\<not> blocked (VNode nd) (q # qs)"
          using 3(3) Some VNode by (simp add: blocked_Cons)
        show ?thesis
          using Some VNode Suc 3(2)[OF Some VNode nb m]
          by (simp add: lookup_def case_prod_beta)
      qed (use 3(3) Some in \<open>simp_all add: blocked_Cons\<close>)
    qed
  qed
qed

lemma lookup_val_scalar_Cons:
  "\<not> is_node u \<Longrightarrow> lookup_val u (r # rs) = None"
  by (cases u) simp_all

lemma frame_set_c:
  "\<not> prefix ps q \<Longrightarrow> \<not> prefix q ps \<Longrightarrow>
   lookup (fst (set_c ps st v)) q = lookup st q"
proof (induction ps st v arbitrary: q rule: set_c.induct)
  case (1 state v)
  then show ?case by simp
next
  case (2 p state v)
  then obtain r rs where q: "q = r # rs" by (cases q) auto
  with 2 have "r \<noteq> p" by auto
  then show ?case using q by (simp add: lookup_def)
next
  case (3 p p' ps' state v)
  then obtain r rs where q: "q = r # rs" by (cases q) auto
  show ?case
  proof (cases "r = p")
    case False
    then show ?thesis using q
      by (simp add: lookup_def case_prod_beta split: option.splits val.splits)
  next
    case True
    with 3(3,4) q have np: "\<not> prefix (p' # ps') rs" "\<not> prefix rs (p' # ps')" by auto
    then obtain r' rs' where rs: "rs = r' # rs'" by (cases rs) auto
    show ?thesis
    proof (cases "om_Get p state")
      case None
      then show ?thesis using True q rs 3(1)[OF None np]
        by (simp add: lookup_def case_prod_beta om_New_def)
    next
      case (Some u)
      show ?thesis
      proof (cases u)
        case (VNode nd)
        then show ?thesis using True q Some 3(2)[OF Some VNode np]
          by (simp add: lookup_def case_prod_beta)
      qed (use Some in simp_all)
    qed
  qed
qed

lemma normalizeKey_abc:
  "normalizeKey L ''a.b.c'' = [''a'', ''b'', ''c'']"
  "normalizeKey L ''a.b.d'' = [''a'', ''b'', ''d'']"
  by code_simp+

lemma set_c_abc_abd:
  "set_c [''a'', ''b'', ''c''] [] x = ([(''a'', VNode [(''b'', VNode [(''c'', x)])])], None)"
  "set_c [''a'', ''b'', ''d''] [(''a'', VNode [(''b'', VNode [(''c'', x)])])] y
     = ([(''a'', VNode [(''b'', VNode [(''c'', x), (''d'', y)])])], None)"
  by (simp_all add: om_New_def)

lemma nesting_scalar: "\<not> is_node v \<Longrightarrow> nesting v = 0"
  by (cases v) simp_all

lemma json_abcd:
  assumes "\<not> is_node x" and "\<not> is_node y"
  shows "json_Marshal L [(''a'', VNode [(''b'', VNode [(''c'', x), (''d'', y)])])] =
     (case (json_value L x, json_value L y) of
        (Some tx, Some ty) \<Rightarrow>
          Some (''{'' @ json_key L ''a'' @ '':{'' @ json_key L ''b'' @ '':{''
                @ json_key L ''c'' @ '':'' @ tx @ '','' @ json_key L ''d'' @ '':'' @ ty
                @ ''}}}'')
      | _ \<Rightarrow> None)"
  using nesting_scalar[OF assms(1)] nesting_scalar[OF assms(2)]
  by (simp add: json_Marshal_def maxNestingDepth_def split: option.splits)

lemma example_abc_abd:
  assumes "store ctx w = Some []" and "is_set c1" and "is_set c2"
    and "call_key c1 = ''a.b.c''" and "call_key c2 = ''a.b.d''"
  shows "snd (run L ctx [c1, c2] w) = None"
    and "store ctx (fst (run L ctx [c1, c2] w))
           = Some [(''a'', VNode [(''b'', VNode [(''c'', call_val c1), (''d'', call_val c2)])])]"
proof -
  let ?w1 = "fst (exec L ctx c1 w)"
  let ?st1 = "[(''a'', VNode [(''b'', VNode [(''c'', call_val c1)])])]"
  have s1: "store ctx ?w1 = Some ?st1" and r1: "snd (exec L ctx c1 w) = None"
    using sets_on_store[OF assms(1,2), of L] assms(4)
    by (simp_all add: normalizeKey_abc set_c_abc_abd del: set_c.simps)
  have s2: "store ctx (fst (exec L ctx c2 ?w1))
      = Some [(''a'', VNode [(''b'', VNode [(''c'', call_val c1), (''d'', call_val c2)])])]"
    and r2: "snd (exec L ctx c2 ?w1) = None"
    using sets_on_store[OF s1 assms(3), of L] assms(5)
    by (simp_all add: normalizeKey_abc set_c_abc_abd del: set_c.simps)
  show "snd (run L ctx [c1, c2] w) = None"
    using r1 r2 by (simp add: run_two del: run.simps)
  show "store ctx (fst (run L ctx [c1, c2] w))
           = Some [(''a'', VNode [(''b'', VNode [(''c'', call_val c1), (''d'', call_val c2)])])]"
    using r1 s2 by (simp add: run_two del: run.simps)
qed

lemma normalizeKey_ToLower:
  "strings_ToLower L k = strings_ToLower L k' \<Longrightarrow> normalizeKey L k = normalizeKey L k'"
  by (simp add: normalizeKey_def)

lemma accessors_ToLower:
  assumes "strings_ToLower L k = strings_ToLower L k'"
  shows "SetString L ctx k s w = SetString L ctx k' s w"
    and "SetInt L ctx k i w = SetInt L ctx k' i w"
    and "SetFloat64 L ctx k f w = SetFloat64 L ctx k' f w"
    and "AddInt L ctx k i w = AddInt L ctx k' i w"
    and "AddFloat64 L ctx k f w = AddFloat64 L ctx k' f w"
  using normalizeKey_ToLower[OF assms]
  by (simp_all add: SetString_def SetInt_def SetFloat64_def AddInt_def AddFloat64_def
      methods_on_values)

lemma normalizeKey_foo_bar:
  "normalizeKey L ''Foo.Bar'' = [''foo'', ''bar'']"
  "normalizeKey L ''foo.bar'' = [''foo'', ''bar'']"
  by code_simp+

subsection \<open>Sequences of Set calls on prefix-free keys\<close>

lemma first_seen_Nil [simp]: "first_seen [] = []"
  by (simp add: first_seen_def)

lemma first_seen_snoc:
  "first_seen (xs @ [x]) = (if x \<in> set xs then first_seen xs else first_seen xs @ [x])"
  by (simp add: first_seen_def)

lemma set_first_seen [simp]: "set (first_seen xs) = set xs"
  by (simp add: first_seen_def)

lemma lookup_val_append:
  "lookup_val x (q @ r) = (case lookup_val x q of None \<Rightarrow> None | Some y \<Rightarrow> lookup_val y r)"
  by (induction x q rule: lookup_val.induct) (simp_all split: option.splits)

lemma lookup_val_through_scalar:
  "\<not> is_node u \<Longrightarrow> r \<noteq> [] \<Longrightarrow> lookup_val u r = None"
  by (cases u; cases r) simp_all

lemma lookup_strict_prefix_node:
  assumes "lookup st p = Some u" and "strict_prefix q p"
  shows "\<exists>m. lookup st q = Some (VNode m)"
proof -
  from assms(2) obtain r where p: "p = q @ r" and r: "r \<noteq> []"
    by (auto simp: strict_prefix_def prefix_def)
  from assms(1) obtain y where y: "lookup_val (VNode st) q = Some y" "lookup_val y r = Some u"
    unfolding lookup_def p lookup_val_append by (auto split: option.splits)
  have "is_node y"
    using lookup_val_through_scalar[OF _ r, of y] y(2) by auto
  then show ?thesis using y(1) by (cases y) (simp_all add: lookup_def)
qed

lemma om_Get_in_keys: "(om_Get k n \<noteq> None) = (k \<in> set (map fst n))"
  using om_Get_keys om_Get_None_keys by (cases "om_Get k n") auto

lemma key_in_keys_at:
  "(k \<in> set (keys_at st q)) = (lookup st (q @ [k]) \<noteq> None)"
proof (cases "lookup_val (VNode st) q")
  case None
  then show ?thesis by (simp add: keys_at_def lookup_def lookup_val_append)
next
  case (Some y)
  show ?thesis
  proof (cases y)
    case (VNode n)
    have "(k \<in> set (map fst n)) = (om_Get k n \<noteq> None)"
      by (simp only: om_Get_in_keys)
    then show ?thesis using Some VNode
      by (simp add: keys_at_def lookup_def lookup_val_append split: option.splits)
  qed (use Some in \<open>simp_all add: keys_at_def lookup_def lookup_val_append\<close>)
qed

lemma blocked_iff:
  "blocked x ps = (\<exists>n<length ps. \<exists>u. lookup_val x (take n ps) = Some u \<and> \<not> is_node u)"
  by (auto simp: blocked_def list_ex_iff split: option.splits)

lemma prefix_take_Suc:
  assumes "strict_prefix (take m ps) p" and "p ! m = ps ! m" and "m < length ps"
  shows "prefix (take (Suc m) ps) p"
proof -
  from assms(1) obtain r where p: "p = take m ps @ r" and r: "r \<noteq> []"
    by (auto simp: strict_prefix_def prefix_def)
  then obtain x xs where rx: "r = x # xs" by (cases r) auto
  have "p ! m = x"
    using p rx assms(3) by (simp add: nth_append)
  then have "p = take (Suc m) ps @ xs"
    using p rx assms(2,3) by (simp add: take_Suc_conv_app_nth)
  then show ?thesis by (simp add: prefix_def)
qed

lemma step_not_blocked:
  assumes inv1: "\<forall>(p, u) \<in> set done. lookup st p = Some u"
    and inv2: "\<forall>q. keys_at st q
                 = first_seen (map (\<lambda>p. p ! length q) (filter (strict_prefix q) (map fst done)))"
    and inc: "\<forall>p \<in> set (map fst done). incomparable p ps"
  shows "\<not> blocked (VNode st) ps"
proof
  assume "blocked (VNode st) ps"
  then obtain n u where n: "n < length ps"
    and u: "lookup_val (VNode st) (take n ps) = Some u" "\<not> is_node u"
    unfolding blocked_iff by blast
  from u have "n \<noteq> 0" by (cases n) auto
  then obtain m where nm: "n = Suc m" by (cases n) auto
  with n have m: "m < length ps" by simp
  have tk: "take (Suc m) ps = take m ps @ [ps ! m]"
    using m by (rule take_Suc_conv_app_nth)
  have "lookup st (take m ps @ [ps ! m]) \<noteq> None"
    using u(1) nm tk by (simp add: lookup_def)
  then have "ps ! m \<in> set (keys_at st (take m ps))"
    using key_in_keys_at[of "ps ! m" st "take m ps"] by blast
  then have "ps ! m \<in> set (map (\<lambda>p. p ! length (take m ps))
                              (filter (strict_prefix (take m ps)) (map fst done)))"
    using inv2 by simp
  then obtain p where p: "p \<in> set (map fst done)" "strict_prefix (take m ps) p" "p ! m = ps ! m"
    using m by force
  have pre: "prefix (take (Suc m) ps) p"
    by (rule prefix_take_Suc[OF p(2,3) m])
  from p(1) inc have ic: "incomparable p ps" by blast
  have "p \<noteq> take (Suc m) ps"
    using ic take_is_prefix[of "Suc m" ps] by (auto simp: incomparable_def)
  with pre have sp: "strict_prefix (take (Suc m) ps) p"
    by (auto simp: strict_prefix_def)
  from p(1) obtain u' where "(p, u') \<in> set done" by auto
  with inv1 have "lookup st p = Some u'" by blast
  from lookup_strict_prefix_node[OF this sp] obtain nd
    where "lookup st (take (Suc m) ps) = Some (VNode nd)" by blast
  with u nm show False by (simp add: lookup_def)
qed

lemma step_lookup:
  assumes inv1: "\<forall>(p, u) \<in> set done. lookup st p = Some u"
    and inc: "\<forall>p \<in> set (map fst done). incomparable p ps"
    and ne: "ps \<noteq> []" and nb: "\<not> blocked (VNode st) ps"
  shows "\<forall>(p, u) \<in> set (done @ [(ps, v)]). lookup (fst (set_c ps st v)) p = Some u"
proof -
  have new: "lookup (fst (set_c ps st v)) ps = Some v"
    using lookup_set_c[OF ne nb] by (simp add: lookup_def)
  have old: "lookup (fst (set_c ps st v)) p = Some u" if "(p, u) \<in> set done" for p u
  proof -
    from that inc have "incomparable p ps" by force
    then have "lookup (fst (set_c ps st v)) p = lookup st p"
      by (simp add: incomparable_def frame_set_c)
    with inv1 that show ?thesis by auto
  qed
  from new old show ?thesis by auto
qed

lemma keys_at_under_scalar:
  assumes "lookup st ps = Some v" and "\<not> is_node v" and "prefix ps q"
  shows "keys_at st q = []"
proof -
  from assms(3) obtain r where q: "q = ps @ r" by (auto simp: prefix_def)
  show ?thesis
  proof (cases r)
    case Nil
    then show ?thesis using assms(1,2) q by (cases v) (simp_all add: keys_at_def)
  next
    case (Cons x xs)
    then have "lookup st q = None"
      using assms(1,2) q lookup_val_through_scalar[of v r]
      by (simp add: lookup_def lookup_val_append)
    then show ?thesis by (simp add: keys_at_def)
  qed
qed

lemma step_keys:
  assumes inv2: "\<forall>q. keys_at st q
                 = first_seen (map (\<lambda>p. p ! length q) (filter (strict_prefix q) (map fst done)))"
    and inc: "\<forall>p \<in> set (map fst done). incomparable p ps"
    and ne: "ps \<noteq> []" and nb: "\<not> blocked (VNode st) ps" and sc: "\<not> is_node v"
  shows "keys_at (fst (set_c ps st v)) q
           = first_seen (map (\<lambda>p. p ! length q)
                (filter (strict_prefix q) (map fst (done @ [(ps, v)]))))"
proof -
  let ?st' = "fst (set_c ps st v)"
  let ?old = "map (\<lambda>p. p ! length q) (filter (strict_prefix q) (map fst done))"
  consider (below) "strict_prefix q ps" | (above) "prefix ps q"
    | (apart) "\<not> prefix q ps" "\<not> prefix ps q"
    by (auto simp: strict_prefix_def)
  then show ?thesis
  proof cases
    case below
    then obtain r where ps: "ps = q @ r" and r: "r \<noteq> []"
      by (auto simp: strict_prefix_def prefix_def)
    then have n: "length q < length ps" and tk: "take (length q) ps = q"
      by simp_all
    have "keys_at ?st' q = (if ps ! length q \<in> set (keys_at st q) then keys_at st q
                             else keys_at st q @ [ps ! length q])"
      using keys_after_set_c[OF nb n, of v] tk by simp
    also have "\<dots> = first_seen (?old @ [ps ! length q])"
      using inv2 by (simp add: first_seen_snoc)
    finally show ?thesis using below by simp
  next
    case above
    have "lookup ?st' ps = Some v"
      using lookup_set_c[OF ne nb] by (simp add: lookup_def)
    then have k: "keys_at ?st' q = []"
      using sc above by (rule keys_at_under_scalar)
    have "\<not> strict_prefix q p" if "p \<in> set (map fst done)" for p
    proof
      assume "strict_prefix q p"
      with above have "prefix ps p" by (auto simp: strict_prefix_def)
      moreover from that inc have "incomparable p ps" by blast
      ultimately show False by (simp add: incomparable_def)
    qed
    then have "filter (strict_prefix q) (map fst done) = []"
      by (simp add: filter_empty_conv)
    moreover have "\<not> strict_prefix q ps"
      using above by (auto simp: strict_prefix_def)
    ultimately show ?thesis using k by simp
  next
    case apart
    then have "lookup ?st' q = lookup st q"
      by (simp add: frame_set_c)
    then have "keys_at ?st' q = keys_at st q"
      by (simp add: keys_at_def)
    moreover have "\<not> strict_prefix q ps"
      using apart by (auto simp: strict_prefix_def)
    ultimately show ?thesis using inv2 by simp
  qed
qed

lemma json_members_Get:
  "json_members L n \<noteq> None \<Longrightarrow> om_Get k n = Some u \<Longrightarrow> json_value L u \<noteq> None"
  by (induction n) (auto split: option.splits if_splits)

lemma json_members_Set:
  "json_members L n \<noteq> None \<Longrightarrow> json_value L v \<noteq> None \<Longrightarrow> json_members L (om_Set k v n) \<noteq> None"
  by (induction n) (auto split: option.splits if_splits)

lemma json_node_iff:
  "(json_value L (VNode n) \<noteq> None)
     = (json_members L n \<noteq> None \<and> nesting (VNode n) \<le> maxNestingDepth)"
  by (cases "json_members L n") (simp_all add: not_less)

lemma nesting_members_Get: "om_Get k n = Some u \<Longrightarrow> nesting u \<le> nesting_members n"
  by (induction n) (auto split: if_splits simp: le_max_iff_disj)

lemma nesting_members_Set_le:
  "nesting_members (om_Set k x n) \<le> max (nesting_members n) (nesting x)"
  by (induction n) auto

lemma nesting_members_Set_ge: "nesting x \<le> nesting_members (om_Set k x n)"
  by (induction n) (auto simp: le_max_iff_disj)

lemma nesting_set_c_le:
  "nesting v = 0 \<Longrightarrow>
   nesting (VNode (fst (set_c ps st v))) \<le> max (nesting (VNode st)) (length ps)"
proof (induction ps st v rule: set_c.induct)
  case (1 state v)
  then show ?case by simp
next
  case (2 p state v)
  then show ?case using nesting_members_Set_le[of p v state] by simp
next
  case (3 p q qs state v)
  show ?case
  proof (cases "om_Get p state")
    case None
    let ?n' = "fst (set_c (q # qs) om_New v)"
    have "nesting (VNode ?n') \<le> max (nesting (VNode om_New)) (length (q # qs))"
      by (rule 3(1)[OF None 3(3)])
    then have "nesting (VNode ?n') \<le> length (q # qs)"
      by (simp add: om_New_def)
    moreover have "nesting_members (om_Set p (VNode ?n') state)
        \<le> max (nesting_members state) (nesting (VNode ?n'))"
      by (rule nesting_members_Set_le)
    ultimately have "nesting_members (om_Set p (VNode ?n') state)
        \<le> max (nesting_members state) (length (q # qs))"
      by linarith
    then show ?thesis using None
      by (simp add: case_prod_beta le_max_iff_disj)
  next
    case (Some u)
    show ?thesis
    proof (cases u)
      case (VNode nd)
      let ?n' = "fst (set_c (q # qs) nd v)"
      have "nesting (VNode ?n') \<le> max (nesting (VNode nd)) (length (q # qs))"
        by (rule 3(2)[OF Some VNode 3(3)])
      moreover have "nesting (VNode nd) \<le> nesting_members state"
        using nesting_members_Get[OF Some] VNode by simp
      moreover have "nesting_members (om_Set p (VNode ?n') state)
          \<le> max (nesting_members state) (nesting (VNode ?n'))"
        by (rule nesting_members_Set_le)
      ultimately have "nesting_members (om_Set p (VNode ?n') state)
          \<le> max (nesting_members state) (length (q # qs))"
        by linarith
      then show ?thesis using Some VNode
        by (simp add: case_prod_beta le_max_iff_disj)
    qed (use Some in simp_all)
  qed
qed

lemma nesting_set_c_ge:
  "ps \<noteq> [] \<Longrightarrow> \<not> blocked (VNode st) ps \<Longrightarrow>
   length ps \<le> nesting (VNode (fst (set_c ps st v)))"
proof (induction ps st v rule: set_c.induct)
  case (1 state v)
  then show ?case by simp
next
  case (2 p state v)
  then show ?case by simp
next
  case (3 p q qs state v)
  show ?case
  proof (cases "om_Get p state")
    case None
    let ?n' = "fst (set_c (q # qs) om_New v)"
    have "\<not> blocked (VNode om_New) (q # qs)"
      by (simp add: blocked_Cons om_New_def)
    then have "length (q # qs) \<le> nesting (VNode ?n')"
      using 3(1)[OF None] by simp
    also have "\<dots> \<le> nesting_members (om_Set p (VNode ?n') state)"
      by (rule nesting_members_Set_ge)
    finally show ?thesis using None
      by (simp add: case_prod_beta)
  next
    case (Some u)
    show ?thesis
    proof (cases u)
      case (VNode nd)
      let ?n' = "fst (set_c (q # qs) nd v)"
      have "\<not> blocked (VNode nd) (q # qs)"
        using 3(4) Some VNode by (simp add: blocked_Cons)
      then have "length (q # qs) \<le> nesting (VNode ?n')"
        using 3(2)[OF Some VNode] by simp
      also have "\<dots> \<le> nesting_members (om_Set p (VNode ?n') state)"
        by (rule nesting_members_Set_ge)
      finally show ?thesis using Some VNode
        by (simp add: case_prod_beta)
    qed (use 3(4) Some in \<open>simp_all add: blocked_Cons\<close>)
  qed
qed

lemma step_json_members:
  "json_members L st \<noteq> None \<Longrightarrow> json_value L v \<noteq> None \<Longrightarrow> nesting v = 0 \<Longrightarrow>
   length ps \<le> maxNestingDepth \<Longrightarrow>
   json_members L (fst (set_c ps st v)) \<noteq> None"
proof (induction ps st v rule: set_c.induct)
  case (1 state v)
  then show ?case by simp
next
  case (2 p state v)
  then show ?case by (simp add: json_members_Set)
next
  case (3 p q qs state v)
  have len: "length (q # qs) \<le> maxNestingDepth"
    using 3(6) by simp
  show ?case
  proof (cases "om_Get p state")
    case None
    let ?n' = "fst (set_c (q # qs) om_New v)"
    have "json_members L ?n' \<noteq> None"
      using 3(1)[OF None _ 3(4,5) len] by (simp add: om_New_def)
    moreover have "nesting (VNode ?n') \<le> maxNestingDepth"
      using nesting_set_c_le[OF 3(5), of "q # qs" om_New] len by (simp add: om_New_def)
    ultimately have "json_value L (VNode ?n') \<noteq> None"
      using json_node_iff by blast
    then have "json_members L (om_Set p (VNode ?n') state) \<noteq> None"
      by (rule json_members_Set[OF 3(3)])
    then show ?thesis using None
      by (simp add: case_prod_beta)
  next
    case (Some u)
    show ?thesis
    proof (cases u)
      case (VNode nd)
      let ?n' = "fst (set_c (q # qs) nd v)"
      have "json_value L (VNode nd) \<noteq> None"
        using json_members_Get[OF 3(3) Some] VNode by simp
      then have nd: "json_members L nd \<noteq> None" "nesting (VNode nd) \<le> maxNestingDepth"
        using json_node_iff by blast+
      have "json_members L ?n' \<noteq> None"
        by (rule 3(2)[OF Some VNode nd(1) 3(4,5) len])
      moreover have "nesting (VNode ?n') \<le> maxNestingDepth"
        using nesting_set_c_le[OF 3(5), of "q # qs" nd] len nd(2) by simp
      ultimately have "json_value L (VNode ?n') \<noteq> None"
        using json_node_iff by blast
      then have "json_members L (om_Set p (VNode ?n') state) \<noteq> None"
        by (rule json_members_Set[OF 3(3)])
      then show ?thesis using Some VNode
        by (simp add: case_prod_beta)
    qed (use Some 3(3) in simp_all)
  qed
qed

lemma step_json:
  assumes "json_value L (VNode st) \<noteq> None" and "json_value L v \<noteq> None"
    and "nesting v = 0" and "length ps \<le> maxNestingDepth"
  shows "json_value L (VNode (fst (set_c ps st v))) \<noteq> None"
proof -
  from assms(1) have st: "json_members L st \<noteq> None" "nesting (VNode st) \<le> maxNestingDepth"
    using json_node_iff by blast+
  have "json_members L (fst (set_c ps st v)) \<noteq> None"
    by (rule step_json_members[OF st(1) assms(2,3,4)])
  moreover have "nesting (VNode (fst (set_c ps st v))) \<le> maxNestingDepth"
    using nesting_set_c_le[OF assms(3), of ps st] st(2) assms(4) by simp
  ultimately show ?thesis
    using json_node_iff by blast
qed

lemma run_snoc:
  "run L ctx (cs @ [c]) w =
     (if snd (run L ctx cs w) = None then exec L ctx c (fst (run L ctx cs w))
      else run L ctx cs w)"
proof (induction cs arbitrary: w)
  case Nil
  then show ?case by (auto split: prod.splits option.splits)
next
  case (Cons a cs)
  then show ?case by (auto split: prod.splits option.splits)
qed

lemma set_value_scalar: "is_set c \<Longrightarrow> \<not> is_node (call_val c)"
  by (cases c) simp_all

lemma set_value_json:
  assumes "is_set c" and "\<forall>k f. c = CallSetFloat64 k f \<longrightarrow> \<not> float64_exceptional f"
  shows "json_value L (call_val c) \<noteq> None"
  using assms by (cases c) (simp_all add: json_float64_def)

lemma run_sets_invariant:
  assumes "store ctx w = Some []"
    and "\<forall>c \<in> set cs. is_set c"
    and "prefix_free (map (path_of L) cs)"
    and "\<forall>c \<in> set cs. json_value L (call_val c) \<noteq> None"
    and "\<forall>c \<in> set cs. length (path_of L c) \<le> maxNestingDepth"
  shows "snd (run L ctx cs w) = None
       \<and> (\<exists>st. store ctx (fst (run L ctx cs w)) = Some st
            \<and> (\<forall>(p, u) \<in> set (map (\<lambda>c. (path_of L c, call_val c)) cs). lookup st p = Some u)
            \<and> (\<forall>q. keys_at st q
                  = first_seen (map (\<lambda>p. p ! length q)
                      (filter (strict_prefix q)
                         (map fst (map (\<lambda>c. (path_of L c, call_val c)) cs)))))
            \<and> json_value L (VNode st) \<noteq> None)"
  using assms(2,3,4,5)
proof (induction cs rule: rev_induct)
  case Nil
  then show ?case using assms(1) by (simp add: lookup_def maxNestingDepth_def)
next
  case (snoc c cs)
  let ?done = "map (\<lambda>c. (path_of L c, call_val c)) cs"
  let ?w' = "fst (run L ctx cs w)"
  let ?ps = "path_of L c" and ?v = "call_val c"
  have pf: "prefix_free (map (path_of L) cs)"
    and inc: "\<forall>p \<in> set (map fst ?done). incomparable p ?ps"
    using snoc.prems(2) by (auto simp: prefix_free_def sorted_wrt_append)
  have sets: "\<forall>c \<in> set cs. is_set c" and cset: "is_set c"
    using snoc.prems(1) by simp_all
  have js: "\<forall>c \<in> set cs. json_value L (call_val c) \<noteq> None"
    and cj: "json_value L ?v \<noteq> None"
    using snoc.prems(3) by simp_all
  have ls: "\<forall>c \<in> set cs. length (path_of L c) \<le> maxNestingDepth"
    and cl: "length ?ps \<le> maxNestingDepth"
    using snoc.prems(4) by simp_all
  from snoc.IH[OF sets pf js ls] obtain st where ok: "snd (run L ctx cs w) = None"
    and st: "store ctx ?w' = Some st"
    and inv1: "\<forall>(p, u) \<in> set ?done. lookup st p = Some u"
    and inv2: "\<forall>q. keys_at st q
        = first_seen (map (\<lambda>p. p ! length q) (filter (strict_prefix q) (map fst ?done)))"
    and inv3: "json_value L (VNode st) \<noteq> None"
    by blast
  let ?st' = "fst (set_c ?ps st ?v)"
  have ne: "?ps \<noteq> []" by (simp add: path_of_def)
  have nb: "\<not> blocked (VNode st) ?ps"
    by (rule step_not_blocked[OF inv1 inv2 inc])
  have r: "run L ctx (cs @ [c]) w = exec L ctx c ?w'"
    using ok by (simp add: run_snoc)
  have a: "snd (exec L ctx c ?w') = None"
    using sets_on_store(2)[OF st cset, of L] set_c_not_blocked[OF ne nb]
    by (simp add: path_of_def)
  have b: "store ctx (fst (exec L ctx c ?w')) = Some ?st'"
    using sets_on_store(1)[OF st cset, of L] by (simp add: path_of_def)
  have dn: "map (\<lambda>c. (path_of L c, call_val c)) (cs @ [c]) = ?done @ [(?ps, ?v)]"
    by simp
  have c1: "\<forall>(p, u) \<in> set (?done @ [(?ps, ?v)]). lookup ?st' p = Some u"
    by (rule step_lookup[OF inv1 inc ne nb])
  have c2: "\<forall>q. keys_at ?st' q
       = first_seen (map (\<lambda>p. p ! length q)
           (filter (strict_prefix q) (map fst (?done @ [(?ps, ?v)]))))"
    using step_keys[OF inv2 inc ne nb set_value_scalar[OF cset]] by blast
  have c3: "json_value L (VNode ?st') \<noteq> None"
    by (rule step_json[OF inv3 cj nesting_scalar[OF set_value_scalar[OF cset]] cl])
  show ?case
    unfolding r dn using a b c1 c2 c3 by blast
qed

lemma run_one: "run L ctx [c] w = exec L ctx c w"
  by (simp split: prod.splits option.splits)

lemma blocked_empty: "\<not> blocked (VNode []) ps"
  by (cases ps) (simp_all add: blocked_Cons)

lemma deep_key_MarshalJSON:
  assumes "store ctx w = Some []" and "maxNestingDepth < length (normalizeKey L k)"
  shows "fst (MarshalJSON L ctx (fst (run L ctx [CallSetInt k i] w))) = []"
proof -
  let ?ps = "normalizeKey L k"
  let ?st' = "fst (set_c ?ps [] (VInt i))"
  have "is_set (CallSetInt k i)"
    by simp
  from sets_on_store(1)[OF assms(1) this, of L]
  have st: "store ctx (fst (run L ctx [CallSetInt k i] w)) = Some ?st'"
    by (simp only: run_one call_key.simps call_val.simps)
  have "length ?ps \<le> nesting (VNode ?st')"
    by (rule nesting_set_c_ge[OF normalizeKey_not_Nil blocked_empty])
  with assms(2) have "maxNestingDepth < nesting (VNode ?st')"
    by simp
  then have "json_value L (VNode ?st') = None"
    by (simp split: option.splits)
  then show ?thesis
    using st by (simp add: MarshalJSON_store json_Marshal_def)
qed

lemma ascii_a_dot:
  "isASCII CHR ''a''" "isASCII CHR ''.''"
  "lowerASCII CHR ''a'' = CHR ''a''" "lowerASCII CHR ''.'' = CHR ''.''"
  by code_simp+

lemma deep_key_chars: "set (concat (replicate n ''a.'') @ ''a'') \<subseteq> {CHR ''a'', CHR ''.''}"
  by (induction n) auto

lemma deep_key_Split:
  "strings_Split_dot (concat (replicate n ''a.'') @ ''a'') = replicate (Suc n) ''a''"
  by (induction n) simp_all

lemma deep_key_path:
  "normalizeKey L (concat (replicate n ''a.'') @ ''a'') = replicate (Suc n) ''a''"
proof -
  let ?k = "concat (replicate n ''a.'') @ ''a''"
  have a: "list_all isASCII ?k"
    using deep_key_chars[of n] ascii_a_dot(1,2) by (auto simp: list_all_iff)
  have "map lowerASCII ?k = ?k"
    using deep_key_chars[of n] ascii_a_dot(3,4) by (intro map_idI) auto
  with a have "strings_ToLower L ?k = ?k"
    by (simp add: strings_ToLower_def)
  then show ?thesis
    by (simp only: normalizeKey_def deep_key_Split)
qed

subsection \<open>The repository's tests\<close>

text \<open>
  The model gives the outputs that canonical_test.go requires (the two float tests depend
  on the library's decimal text of a float64 and are left out), and the empty string for
  a store that holds a NaN.
\<close>

lemma TestCanonical_SetInt:
  \<open>fst (MarshalJSON ascii_lib fresh_ctx
     (fst (run ascii_lib fresh_ctx [CallSetInt ''foo.bar'' 1, CallSetInt ''foo.baz'' 2] fresh_world)))
   = ''{"foo":{"bar":1,"baz":2}}''\<close>
  by code_simp

lemma TestCanonical_Nested:
  \<open>fst (MarshalJSON ascii_lib fresh_ctx
     (fst (SetString ascii_lib (WithValue fresh_ctx ''foo'' (OtherValue ''bar'')) ''user_id'' ''123''
        (fst (SetString ascii_lib fresh_ctx ''request_id'' ''req-123'' fresh_world)))))
   = ''{"request_id":"req-123","user_id":"123"}''\<close>
  by code_simp

lemma TestCanonical_AddInt:
  \<open>fst (MarshalJSON ascii_lib fresh_ctx
     (fst (run ascii_lib fresh_ctx [CallAddInt ''foo.bar'' 1, CallAddInt ''foo.bar'' 1] fresh_world)))
   = ''{"foo":{"bar":2}}''\<close>
  by code_simp

lemma TestCanonical_MultiNested:
  \<open>fst (MarshalJSON ascii_lib fresh_ctx
     (fst (run ascii_lib fresh_ctx
        [CallSetString ''http.request.path'' ''/foo'',
         CallSetString ''http.request.code'' ''200'',
         CallSetInt ''http.response.duration_ms'' 10] fresh_world)))
   = ''{"http":{"request":{"path":"/foo","code":"200"},"response":{"duration_ms":10}}}''\<close>
  by code_simp

lemma MarshalJSON_NaN:
  "string_c L \<lparr> c_values = [(k, VFloat 0x7FF8000000000000)] \<rparr> = []"
  by (simp add: string_c_def json_Marshal_def json_float64_def float64_exceptional_def)

section \<open>The claims\<close>

text \<open>
  C7. On a carrier with no attached store (nothing under the key, or a value that is no
  \<^verbatim>\<open>*canonical\<close>), each of the five accessors returns normally and leaves the world as
  it was, and \<^verbatim>\<open>MarshalJSON\<close> returns the empty string.
\<close>

theorem no_store_is_noop:
  assumes "store ctx w = None"
  shows "SetString L ctx key s w = (w, None)
       \<and> SetInt L ctx key i w = (w, None)
       \<and> SetFloat64 L ctx key f w = (w, None)
       \<and> AddInt L ctx key i w = (w, None)
       \<and> AddFloat64 L ctx key f w = (w, None)
       \<and> MarshalJSON L ctx w = ([], w)"
proof -
  have "MarshalJSON L ctx w = ([], w)"
    using assms MarshalJSON_store[of L ctx w] MarshalJSON_world[of L ctx w]
    by (simp add: prod_eq_iff)
  then show ?thesis
    using assms
    by (simp add: SetString_def SetInt_def SetFloat64_def AddInt_def AddFloat64_def
        with_canonical_no_store)
qed

theorem no_store_is_noop_witness:
  "store (WithValue Background ''foo'' (OtherValue ''bar'')) empty_world = None
   \<and> SetString ascii_lib (WithValue Background ''foo'' (OtherValue ''bar'')) ''user_id'' ''123'' empty_world
       = (empty_world, None)
   \<and> AddInt ascii_lib (WithValue Background ''foo'' (OtherValue ''bar'')) ''n.m'' 1 empty_world
       = (empty_world, None)
   \<and> MarshalJSON ascii_lib (WithValue Background ''foo'' (OtherValue ''bar'')) empty_world
       = ([], empty_world)"
proof -
  have h: "store (WithValue Background ''foo'' (OtherValue ''bar'')) empty_world = None"
    by (simp add: store_def WithValue_def Background_def contextKey_def)
  show ?thesis
    using h no_store_is_noop[OF h, of ascii_lib "''user_id''" "''123''" 1 0]
      no_store_is_noop[OF h, of ascii_lib "''n.m''" "''''" 1 0]
    by simp
qed

text \<open>
  C8. On an initialized carrier whose store holds a scalar at an intermediate segment of
  the key, \<^verbatim>\<open>SetString\<close>, \<^verbatim>\<open>SetInt\<close> and \<^verbatim>\<open>SetFloat64\<close> end in the type-assertion
  panic, and the world is as it was: the scalar is not replaced by a map.
\<close>

theorem set_through_scalar_panics:
  assumes "store ctx w = Some st" and "scalar_on_path st (normalizeKey L key)"
  shows "SetString L ctx key s w = (w, Some TypeAssertionFailed)
       \<and> SetInt L ctx key i w = (w, Some TypeAssertionFailed)
       \<and> SetFloat64 L ctx key f w = (w, Some TypeAssertionFailed)"
  using set_calls_blocked[OF assms]
  by (simp add: SetString_def SetInt_def SetFloat64_def methods_on_values)

theorem set_through_scalar_panics_witness:
  "store fresh_ctx (fst (run ascii_lib fresh_ctx [CallSetInt ''a'' 1] fresh_world))
     = Some [(''a'', VInt 1)]
   \<and> scalar_on_path [(''a'', VInt 1)] (normalizeKey ascii_lib ''a.b'')
   \<and> SetInt ascii_lib fresh_ctx ''a.b'' 2
        (fst (run ascii_lib fresh_ctx [CallSetInt ''a'' 1] fresh_world))
     = (fst (run ascii_lib fresh_ctx [CallSetInt ''a'' 1] fresh_world), Some TypeAssertionFailed)"
proof -
  let ?w = "fst (run ascii_lib fresh_ctx [CallSetInt ''a'' 1] fresh_world)"
  have h1: "store fresh_ctx ?w = Some [(''a'', VInt 1)]"
    by code_simp
  have h2: "scalar_on_path [(''a'', VInt 1)] (normalizeKey ascii_lib ''a.b'')"
    by code_simp
  show ?thesis
    using h1 h2 set_through_scalar_panics[OF h1 h2, of "''''" 2 0]
    by simp
qed

text \<open>
  C3. On an initialized carrier whose store holds no scalar at an intermediate segment of
  the key, \<^verbatim>\<open>AddInt\<close> (and likewise \<^verbatim>\<open>AddFloat64\<close>) returns normally; afterwards the
  leaf holds the delta if it was absent, the old value plus the delta if it held an int
  (a float64), and otherwise what it held before, and in this last case the world is as
  it was.
\<close>

theorem add_at_leaf:
  assumes "store ctx w = Some st" and "\<not> scalar_on_path st (normalizeKey L key)"
  shows "snd (AddInt L ctx key d w) = None
       \<and> (\<exists>st'. store ctx (fst (AddInt L ctx key d w)) = Some st'
              \<and> lookup st' (normalizeKey L key) =
                  (case lookup st (normalizeKey L key) of
                     None \<Rightarrow> Some (VInt d)
                   | Some (VInt e) \<Rightarrow> Some (VInt (e + d))
                   | Some u \<Rightarrow> Some u))
       \<and> ((\<exists>u. lookup st (normalizeKey L key) = Some u \<and> (\<forall>e. u \<noteq> VInt e))
            \<longrightarrow> AddInt L ctx key d w = (w, None))
       \<and> snd (AddFloat64 L ctx key f w) = None
       \<and> (\<exists>st'. store ctx (fst (AddFloat64 L ctx key f w)) = Some st'
              \<and> lookup st' (normalizeKey L key) =
                  (case lookup st (normalizeKey L key) of
                     None \<Rightarrow> Some (VFloat f)
                   | Some (VFloat e) \<Rightarrow> Some (VFloat (float64_add L e f))
                   | Some u \<Rightarrow> Some u))
       \<and> ((\<exists>u. lookup st (normalizeKey L key) = Some u \<and> (\<forall>e. u \<noteq> VFloat e))
            \<longrightarrow> AddFloat64 L ctx key f w = (w, None))"
proof -
  let ?ps = "normalizeKey L key"
  note nb = assms(2)
  have ne: "?ps \<noteq> []" by simp
  have ok: "\<And>v. snd (set_c ?ps st v) = None"
    using nb ne by (simp add: scalar_on_path_def set_c_not_blocked)
  have lk: "\<And>v. lookup (fst (set_c ?ps st v)) ?ps = Some v"
    by (rule lookup_set_c'[OF ne nb])
  have i1: "snd (add_c ?ps st d) = None"
    using ok by (simp add: add_c_as_set_c[OF ne] split: option.splits val.splits)
  have i2: "lookup (fst (add_c ?ps st d)) ?ps =
      (case lookup st ?ps of None \<Rightarrow> Some (VInt d)
       | Some (VInt e) \<Rightarrow> Some (VInt (e + d)) | Some u \<Rightarrow> Some u)"
    using lk by (simp add: add_c_as_set_c[OF ne] split: option.splits val.splits)
  have i3: "(\<exists>u. lookup st ?ps = Some u \<and> (\<forall>e. u \<noteq> VInt e)) \<Longrightarrow> add_c ?ps st d = (st, None)"
    by (auto simp: add_c_as_set_c[OF ne] split: option.splits val.splits)
  have f1: "snd (addFloat L ?ps st f) = None"
    using ok by (simp add: addFloat_as_set_c[OF ne] split: option.splits val.splits)
  have f2: "lookup (fst (addFloat L ?ps st f)) ?ps =
      (case lookup st ?ps of None \<Rightarrow> Some (VFloat f)
       | Some (VFloat e) \<Rightarrow> Some (VFloat (float64_add L e f)) | Some u \<Rightarrow> Some u)"
    using lk by (simp add: addFloat_as_set_c[OF ne] split: option.splits val.splits)
  have f3: "(\<exists>u. lookup st ?ps = Some u \<and> (\<forall>e. u \<noteq> VFloat e)) \<Longrightarrow> addFloat L ?ps st f = (st, None)"
    by (auto simp: addFloat_as_set_c[OF ne] split: option.splits val.splits)
  note A = adds_on_store[OF assms(1), of L key] adds_unchanged[OF assms(1), of L key]
  have c1: "snd (AddInt L ctx key d w) = None"
    using A(2)[of d] i1 by simp
  have c2: "\<exists>st'. store ctx (fst (AddInt L ctx key d w)) = Some st'
      \<and> lookup st' ?ps = (case lookup st ?ps of None \<Rightarrow> Some (VInt d)
          | Some (VInt e) \<Rightarrow> Some (VInt (e + d)) | Some u \<Rightarrow> Some u)"
    using A(1)[of d] i2 by simp
  have c3: "(\<exists>u. lookup st ?ps = Some u \<and> (\<forall>e. u \<noteq> VInt e)) \<longrightarrow> AddInt L ctx key d w = (w, None)"
  proof
    assume m: "\<exists>u. lookup st ?ps = Some u \<and> (\<forall>e. u \<noteq> VInt e)"
    from i3[OF m] have "fst (AddInt L ctx key d w) = w"
      using A(5)[of d] by simp
    with c1 show "AddInt L ctx key d w = (w, None)"
      by (simp add: prod_eq_iff)
  qed
  have c4: "snd (AddFloat64 L ctx key f w) = None"
    using A(4)[of f] f1 by simp
  have c5: "\<exists>st'. store ctx (fst (AddFloat64 L ctx key f w)) = Some st'
      \<and> lookup st' ?ps = (case lookup st ?ps of None \<Rightarrow> Some (VFloat f)
          | Some (VFloat e) \<Rightarrow> Some (VFloat (float64_add L e f)) | Some u \<Rightarrow> Some u)"
    using A(3)[of f] f2 by simp
  have c6: "(\<exists>u. lookup st ?ps = Some u \<and> (\<forall>e. u \<noteq> VFloat e)) \<longrightarrow> AddFloat64 L ctx key f w = (w, None)"
  proof
    assume m: "\<exists>u. lookup st ?ps = Some u \<and> (\<forall>e. u \<noteq> VFloat e)"
    from f3[OF m] have "fst (AddFloat64 L ctx key f w) = w"
      using A(6)[of f] by simp
    with c4 show "AddFloat64 L ctx key f w = (w, None)"
      by (simp add: prod_eq_iff)
  qed
  from c1 c2 c3 c4 c5 c6 show ?thesis by blast
qed

theorem add_at_leaf_witness:
  "store fresh_ctx (fst (run ascii_lib fresh_ctx [CallAddInt ''foo.bar'' 1] fresh_world))
     = Some [(''foo'', VNode [(''bar'', VInt 1)])]
   \<and> \<not> scalar_on_path [(''foo'', VNode [(''bar'', VInt 1)])] (normalizeKey ascii_lib ''foo.bar'')
   \<and> snd (AddInt ascii_lib fresh_ctx ''foo.bar'' 1
            (fst (run ascii_lib fresh_ctx [CallAddInt ''foo.bar'' 1] fresh_world))) = None
   \<and> (\<exists>st'. store fresh_ctx
               (fst (AddInt ascii_lib fresh_ctx ''foo.bar'' 1
                      (fst (run ascii_lib fresh_ctx [CallAddInt ''foo.bar'' 1] fresh_world))))
               = Some st'
            \<and> lookup st' (normalizeKey ascii_lib ''foo.bar'') = Some (VInt 2))
   \<and> AddFloat64 ascii_lib fresh_ctx ''foo.bar'' 0
        (fst (run ascii_lib fresh_ctx [CallAddInt ''foo.bar'' 1] fresh_world))
       = (fst (run ascii_lib fresh_ctx [CallAddInt ''foo.bar'' 1] fresh_world), None)"
proof -
  let ?w = "fst (run ascii_lib fresh_ctx [CallAddInt ''foo.bar'' 1] fresh_world)"
  let ?st = "[(''foo'', VNode [(''bar'', VInt 1)])]"
  have h1: "store fresh_ctx ?w = Some ?st"
    by code_simp
  have h2: "\<not> scalar_on_path ?st (normalizeKey ascii_lib ''foo.bar'')"
    by code_simp
  have h3: "lookup ?st (normalizeKey ascii_lib ''foo.bar'') = Some (VInt 1)"
    by code_simp
  show ?thesis
    using h1 h2 h3 add_at_leaf[OF h1 h2, of 1 0]
    by simp
qed

text \<open>
  C6. \<^verbatim>\<open>Init\<close> tests \<^verbatim>\<open>v == nil\<close> where the accessors test \<^verbatim>\<open>.(*canonical)\<close>. A
  carrier that holds some other value under \<^verbatim>\<open>"__clog__"\<close> has no store, and \<^verbatim>\<open>Init\<close>
  returns it as it is: no store is attached, and a \<^verbatim>\<open>SetInt\<close> after it is lost.
\<close>

theorem Init_skips_foreign_value:
  \<open>Init (WithValue Background contextKey (OtherValue ''x'')) empty_world
     = (WithValue Background contextKey (OtherValue ''x''), empty_world)
   \<and> store (WithValue Background contextKey (OtherValue ''x'')) empty_world = None
   \<and> fst (MarshalJSON ascii_lib (WithValue Background contextKey (OtherValue ''x''))
        (fst (SetInt ascii_lib (WithValue Background contextKey (OtherValue ''x'')) ''a'' 1
           empty_world))) = []\<close>
  by (simp add: Init_def WithValue_def Background_def store_def MarshalJSON_def SetInt_def
      with_canonical_def)

text \<open>
  C10. \<^verbatim>\<open>MarshalJSON\<close> returns the world as it was; a second call right after it returns
  the same text; and the text depends on nothing but the attached store, so two calls
  between which that store did not change return the same text.
\<close>

theorem MarshalJSON_read_only:
  "snd (MarshalJSON L ctx w) = w
   \<and> fst (MarshalJSON L ctx (snd (MarshalJSON L ctx w))) = fst (MarshalJSON L ctx w)
   \<and> (store ctx w' = store ctx w \<longrightarrow> fst (MarshalJSON L ctx w') = fst (MarshalJSON L ctx w))"
  by (simp add: MarshalJSON_world MarshalJSON_store)

theorem MarshalJSON_read_only_witness:
  \<open>store fresh_ctx (snd (Init Background (fst (run ascii_lib fresh_ctx [CallSetInt ''a'' 1] fresh_world))))
     = store fresh_ctx (fst (run ascii_lib fresh_ctx [CallSetInt ''a'' 1] fresh_world))
   \<and> fst (MarshalJSON ascii_lib fresh_ctx
        (snd (Init Background (fst (run ascii_lib fresh_ctx [CallSetInt ''a'' 1] fresh_world)))))
     = fst (MarshalJSON ascii_lib fresh_ctx
        (fst (run ascii_lib fresh_ctx [CallSetInt ''a'' 1] fresh_world)))
   \<and> fst (MarshalJSON ascii_lib fresh_ctx
        (fst (run ascii_lib fresh_ctx [CallSetInt ''a'' 1] fresh_world))) = ''{"a":1}''\<close>
proof -
  let ?w = "fst (run ascii_lib fresh_ctx [CallSetInt ''a'' 1] fresh_world)"
  have h: "store fresh_ctx (snd (Init Background ?w)) = store fresh_ctx ?w"
    by code_simp
  have t: \<open>fst (MarshalJSON ascii_lib fresh_ctx ?w) = ''{"a":1}''\<close>
    by code_simp
  show ?thesis
    using h t MarshalJSON_read_only[of ascii_lib fresh_ctx ?w "snd (Init Background ?w)"]
    by simp
qed

text \<open>
  C4 (as amended). On an initialized carrier whose store holds no scalar at an
  intermediate segment of the key, two \<^verbatim>\<open>Set\<close> calls (of any of the three kinds) whose
  keys normalize to the same segments return normally and leave the world exactly as the
  second call alone would; the leaf then holds the second value, whatever it held before.
\<close>

theorem set_twice_keeps_second:
  assumes "store ctx w = Some st"
    and "is_set c1" and "is_set c2"
    and "normalizeKey L (call_key c1) = normalizeKey L (call_key c2)"
    and "\<not> scalar_on_path st (normalizeKey L (call_key c2))"
  shows "run L ctx [c1, c2] w = exec L ctx c2 w
       \<and> snd (run L ctx [c1, c2] w) = None
       \<and> (\<exists>st'. store ctx (fst (run L ctx [c1, c2] w)) = Some st'
              \<and> lookup st' (normalizeKey L (call_key c2)) = Some (call_val c2))"
proof -
  let ?ps = "normalizeKey L (call_key c2)"
  have ne: "?ps \<noteq> []" by simp
  have ok1: "snd (exec L ctx c1 w) = None"
    using sets_on_store(2)[OF assms(1,2), of L] assms(4,5) ne
    by (simp add: scalar_on_path_def set_c_not_blocked)
  have ok2: "snd (exec L ctx c2 w) = None"
    using sets_on_store(2)[OF assms(1,3), of L] assms(5) ne
    by (simp add: scalar_on_path_def set_c_not_blocked)
  have r: "run L ctx [c1, c2] w = exec L ctx c2 w"
    using ok1 set_then_set[OF assms(2,3,4), of ctx w]
    by (simp add: run_two del: run.simps)
  have "store ctx (fst (exec L ctx c2 w)) = Some (fst (set_c ?ps st (call_val c2)))"
    by (rule sets_on_store(1)[OF assms(1,3)])
  moreover have "lookup (fst (set_c ?ps st (call_val c2))) ?ps = Some (call_val c2)"
    by (rule lookup_set_c'[OF ne assms(5)])
  ultimately show ?thesis
    using r ok2 by simp
qed

theorem set_twice_keeps_second_witness:
  \<open>store fresh_ctx (fst (run ascii_lib fresh_ctx [CallSetInt ''a.b'' 1] fresh_world))
     = Some [(''a'', VNode [(''b'', VInt 1)])]
   \<and> is_set (CallSetString ''A'' ''x'') \<and> is_set (CallSetInt ''a'' 2)
   \<and> normalizeKey ascii_lib (call_key (CallSetString ''A'' ''x''))
       = normalizeKey ascii_lib (call_key (CallSetInt ''a'' 2))
   \<and> \<not> scalar_on_path [(''a'', VNode [(''b'', VInt 1)])]
         (normalizeKey ascii_lib (call_key (CallSetInt ''a'' 2)))
   \<and> snd (run ascii_lib fresh_ctx [CallSetString ''A'' ''x'', CallSetInt ''a'' 2]
        (fst (run ascii_lib fresh_ctx [CallSetInt ''a.b'' 1] fresh_world))) = None
   \<and> (\<exists>st'. store fresh_ctx
          (fst (run ascii_lib fresh_ctx [CallSetString ''A'' ''x'', CallSetInt ''a'' 2]
             (fst (run ascii_lib fresh_ctx [CallSetInt ''a.b'' 1] fresh_world)))) = Some st'
        \<and> lookup st' [''a''] = Some (VInt 2))\<close>
proof -
  let ?w = "fst (run ascii_lib fresh_ctx [CallSetInt ''a.b'' 1] fresh_world)"
  let ?st = "[(''a'', VNode [(''b'', VInt 1)])]"
  have h1: "store fresh_ctx ?w = Some ?st"
    by code_simp
  have h2: "is_set (CallSetString ''A'' ''x'')" and h3: "is_set (CallSetInt ''a'' 2)"
    by simp_all
  have k: "normalizeKey ascii_lib (call_key (CallSetInt ''a'' 2)) = [''a'']"
    by code_simp
  have h4: "normalizeKey ascii_lib (call_key (CallSetString ''A'' ''x''))
      = normalizeKey ascii_lib (call_key (CallSetInt ''a'' 2))"
    by code_simp
  have h5: "\<not> scalar_on_path ?st (normalizeKey ascii_lib (call_key (CallSetInt ''a'' 2)))"
    by code_simp
  note T = set_twice_keeps_second[OF h1 h2 h3 h4 h5]
  from T have c1: "snd (run ascii_lib fresh_ctx [CallSetString ''A'' ''x'', CallSetInt ''a'' 2] ?w) = None"
    by blast
  from T have "\<exists>st'. store fresh_ctx
        (fst (run ascii_lib fresh_ctx [CallSetString ''A'' ''x'', CallSetInt ''a'' 2] ?w)) = Some st'
      \<and> lookup st' (normalizeKey ascii_lib (call_key (CallSetInt ''a'' 2)))
          = Some (call_val (CallSetInt ''a'' 2))"
    by blast
  then have c2: "\<exists>st'. store fresh_ctx
        (fst (run ascii_lib fresh_ctx [CallSetString ''A'' ''x'', CallSetInt ''a'' 2] ?w)) = Some st'
      \<and> lookup st' [''a''] = Some (VInt 2)"
    by (simp only: k call_val.simps)
  from h1 h2 h3 h4 h5 c1 c2 show ?thesis
    by blast
qed

text \<open>
  As stated, for every initialized carrier, the claim fails: on a store that holds the
  scalar 1 under \<^verbatim>\<open>a\<close>, \<^verbatim>\<open>SetInt("a.b", 1)\<close> and \<^verbatim>\<open>SetInt("a.b", 2)\<close> panic, and the
  store is as before; nothing in it reflects the second value.
\<close>

theorem set_twice_counterexample:
  \<open>store fresh_ctx (fst (run ascii_lib fresh_ctx [CallSetInt ''a'' 1] fresh_world))
     = Some [(''a'', VInt 1)]
   \<and> snd (run ascii_lib fresh_ctx [CallSetInt ''a.b'' 1, CallSetInt ''a.b'' 2]
        (fst (run ascii_lib fresh_ctx [CallSetInt ''a'' 1] fresh_world)))
     = Some TypeAssertionFailed
   \<and> store fresh_ctx
        (fst (run ascii_lib fresh_ctx [CallSetInt ''a.b'' 1, CallSetInt ''a.b'' 2]
           (fst (run ascii_lib fresh_ctx [CallSetInt ''a'' 1] fresh_world))))
     = Some [(''a'', VInt 1)]
   \<and> lookup [(''a'', VInt 1)] (normalizeKey ascii_lib ''a.b'') \<noteq> Some (VInt 2)\<close>
  by code_simp

text \<open>
  C2 (as amended). On an initialized carrier whose store holds no scalar at an
  intermediate segment of the key, a \<^verbatim>\<open>Set\<close> call returns normally; afterwards the key's
  path leads to the value set, every proper prefix of the path leads to a map, the map
  at each such prefix has the keys it had before (none, if it was not there) with the
  next segment appended only if it was missing, and every path that neither extends the
  key's path nor is a prefix of it leads where it led before. After
  \<^verbatim>\<open>Set("a.b.c", x)\<close> and \<^verbatim>\<open>Set("a.b.d", y)\<close> on an empty store the store is
  \<open>a \<mapsto> (b \<mapsto> (c \<mapsto> x, d \<mapsto> y))\<close>, and \<^verbatim>\<open>MarshalJSON\<close> returns the nested object with
  the JSON texts of \<open>x\<close> and \<open>y\<close> when both have one (the empty string otherwise).
\<close>

theorem set_builds_nested_nodes:
  assumes "store ctx w = Some st" and "is_set c"
    and "\<not> scalar_on_path st (normalizeKey L (call_key c))"
  shows "snd (exec L ctx c w) = None
       \<and> (\<exists>st'. store ctx (fst (exec L ctx c w)) = Some st'
            \<and> lookup st' (normalizeKey L (call_key c)) = Some (call_val c)
            \<and> (\<forall>n<length (normalizeKey L (call_key c)).
                  (\<exists>m. lookup st' (take n (normalizeKey L (call_key c))) = Some (VNode m))
                \<and> keys_at st' (take n (normalizeKey L (call_key c)))
                    = (if normalizeKey L (call_key c) ! n
                            \<in> set (keys_at st (take n (normalizeKey L (call_key c))))
                       then keys_at st (take n (normalizeKey L (call_key c)))
                       else keys_at st (take n (normalizeKey L (call_key c)))
                              @ [normalizeKey L (call_key c) ! n]))
            \<and> (\<forall>q. \<not> prefix (normalizeKey L (call_key c)) q
                    \<and> \<not> prefix q (normalizeKey L (call_key c))
                  \<longrightarrow> lookup st' q = lookup st q))
       \<and> (store ctx w0 = Some [] \<and> is_set c1 \<and> is_set c2
            \<and> call_key c1 = ''a.b.c'' \<and> call_key c2 = ''a.b.d''
          \<longrightarrow> snd (run L ctx [c1, c2] w0) = None
            \<and> store ctx (fst (run L ctx [c1, c2] w0))
                = Some [(''a'', VNode [(''b'', VNode [(''c'', call_val c1), (''d'', call_val c2)])])]
            \<and> fst (MarshalJSON L ctx (fst (run L ctx [c1, c2] w0)))
                = (case (json_value L (call_val c1), json_value L (call_val c2)) of
                     (Some tx, Some ty) \<Rightarrow>
                       ''{'' @ json_key L ''a'' @ '':{'' @ json_key L ''b'' @ '':{''
                       @ json_key L ''c'' @ '':'' @ tx @ '','' @ json_key L ''d'' @ '':'' @ ty
                       @ ''}}}''
                   | _ \<Rightarrow> []))"
proof -
  let ?ps = "normalizeKey L (call_key c)"
  let ?st' = "fst (set_c ?ps st (call_val c))"
  have ne: "?ps \<noteq> []" by simp
  have nb: "\<not> blocked (VNode st) ?ps"
    using assms(3) by (simp add: scalar_on_path_def)
  have a1: "snd (exec L ctx c w) = None"
    using sets_on_store(2)[OF assms(1,2), of L] set_c_not_blocked[OF ne nb] by simp
  have a2: "store ctx (fst (exec L ctx c w)) = Some ?st'"
    by (rule sets_on_store(1)[OF assms(1,2)])
  have a3: "lookup ?st' ?ps = Some (call_val c)"
    by (rule lookup_set_c'[OF ne assms(3)])
  have a4: "\<forall>n<length ?ps.
      (\<exists>m. lookup ?st' (take n ?ps) = Some (VNode m))
      \<and> keys_at ?st' (take n ?ps)
          = (if ?ps ! n \<in> set (keys_at st (take n ?ps)) then keys_at st (take n ?ps)
             else keys_at st (take n ?ps) @ [?ps ! n])"
    using nodes_after_set_c[OF nb] keys_after_set_c[OF nb] by blast
  have a5: "\<forall>q. \<not> prefix ?ps q \<and> \<not> prefix q ?ps \<longrightarrow> lookup ?st' q = lookup st q"
    using frame_set_c by blast
  have first: "\<exists>st'. store ctx (fst (exec L ctx c w)) = Some st'
            \<and> lookup st' ?ps = Some (call_val c)
            \<and> (\<forall>n<length ?ps.
                  (\<exists>m. lookup st' (take n ?ps) = Some (VNode m))
                \<and> keys_at st' (take n ?ps)
                    = (if ?ps ! n \<in> set (keys_at st (take n ?ps)) then keys_at st (take n ?ps)
                       else keys_at st (take n ?ps) @ [?ps ! n]))
            \<and> (\<forall>q. \<not> prefix ?ps q \<and> \<not> prefix q ?ps \<longrightarrow> lookup st' q = lookup st q)"
    using a2 a3 a4 a5 by blast
  have second: "store ctx w0 = Some [] \<and> is_set c1 \<and> is_set c2
            \<and> call_key c1 = ''a.b.c'' \<and> call_key c2 = ''a.b.d''
          \<longrightarrow> snd (run L ctx [c1, c2] w0) = None
            \<and> store ctx (fst (run L ctx [c1, c2] w0))
                = Some [(''a'', VNode [(''b'', VNode [(''c'', call_val c1), (''d'', call_val c2)])])]
            \<and> fst (MarshalJSON L ctx (fst (run L ctx [c1, c2] w0)))
                = (case (json_value L (call_val c1), json_value L (call_val c2)) of
                     (Some tx, Some ty) \<Rightarrow>
                       ''{'' @ json_key L ''a'' @ '':{'' @ json_key L ''b'' @ '':{''
                       @ json_key L ''c'' @ '':'' @ tx @ '','' @ json_key L ''d'' @ '':'' @ ty
                       @ ''}}}''
                   | _ \<Rightarrow> [])"
  proof (intro impI, elim conjE)
    assume h: "store ctx w0 = Some []" "is_set c1" "is_set c2"
      "call_key c1 = ''a.b.c''" "call_key c2 = ''a.b.d''"
    note E = example_abc_abd[OF h, of L]
    have "fst (MarshalJSON L ctx (fst (run L ctx [c1, c2] w0)))
                = (case (json_value L (call_val c1), json_value L (call_val c2)) of
                     (Some tx, Some ty) \<Rightarrow>
                       ''{'' @ json_key L ''a'' @ '':{'' @ json_key L ''b'' @ '':{''
                       @ json_key L ''c'' @ '':'' @ tx @ '','' @ json_key L ''d'' @ '':'' @ ty
                       @ ''}}}''
                   | _ \<Rightarrow> [])"
      unfolding MarshalJSON_store E(2)
      by (simp add: json_abcd[OF set_value_scalar[OF h(2)] set_value_scalar[OF h(3)]]
          split: option.splits)
    with E show "snd (run L ctx [c1, c2] w0) = None
            \<and> store ctx (fst (run L ctx [c1, c2] w0))
                = Some [(''a'', VNode [(''b'', VNode [(''c'', call_val c1), (''d'', call_val c2)])])]
            \<and> fst (MarshalJSON L ctx (fst (run L ctx [c1, c2] w0)))
                = (case (json_value L (call_val c1), json_value L (call_val c2)) of
                     (Some tx, Some ty) \<Rightarrow>
                       ''{'' @ json_key L ''a'' @ '':{'' @ json_key L ''b'' @ '':{''
                       @ json_key L ''c'' @ '':'' @ tx @ '','' @ json_key L ''d'' @ '':'' @ ty
                       @ ''}}}''
                   | _ \<Rightarrow> [])"
      by blast
  qed
  from a1 first second show ?thesis by blast
qed

theorem set_builds_nested_nodes_witness:
  \<open>store fresh_ctx (fst (run ascii_lib fresh_ctx [CallSetInt ''a.b.c'' 1] fresh_world))
     = Some [(''a'', VNode [(''b'', VNode [(''c'', VInt 1)])])]
   \<and> is_set (CallSetInt ''a.b.d'' 2)
   \<and> \<not> scalar_on_path [(''a'', VNode [(''b'', VNode [(''c'', VInt 1)])])]
         (normalizeKey ascii_lib (call_key (CallSetInt ''a.b.d'' 2)))
   \<and> snd (exec ascii_lib fresh_ctx (CallSetInt ''a.b.d'' 2)
        (fst (run ascii_lib fresh_ctx [CallSetInt ''a.b.c'' 1] fresh_world))) = None
   \<and> (\<exists>st'. store fresh_ctx
          (fst (exec ascii_lib fresh_ctx (CallSetInt ''a.b.d'' 2)
             (fst (run ascii_lib fresh_ctx [CallSetInt ''a.b.c'' 1] fresh_world)))) = Some st'
        \<and> lookup st' [''a'', ''b'', ''d''] = Some (VInt 2)
        \<and> keys_at st' [''a'', ''b''] = [''c'', ''d''])
   \<and> store fresh_ctx fresh_world = Some []
   \<and> fst (MarshalJSON ascii_lib fresh_ctx
        (fst (run ascii_lib fresh_ctx [CallSetInt ''a.b.c'' 1, CallSetString ''a.b.d'' ''y'']
           fresh_world)))
     = ''{"a":{"b":{"c":1,"d":"y"}}}''\<close>
proof -
  let ?w = "fst (run ascii_lib fresh_ctx [CallSetInt ''a.b.c'' 1] fresh_world)"
  let ?st = "[(''a'', VNode [(''b'', VNode [(''c'', VInt 1)])])]"
  let ?c = "CallSetInt ''a.b.d'' 2"
  let ?c1 = "CallSetInt ''a.b.c'' 1"
  let ?c2 = "CallSetString ''a.b.d'' ''y''"
  have h1: "store fresh_ctx ?w = Some ?st"
    by code_simp
  have h2: "is_set ?c"
    by simp
  have k: "normalizeKey ascii_lib (call_key ?c) = [''a'', ''b'', ''d'']"
    by code_simp
  have h3: "\<not> scalar_on_path ?st (normalizeKey ascii_lib (call_key ?c))"
    by code_simp
  have h0: "store fresh_ctx fresh_world = Some []"
    by code_simp
  have ka: "keys_at ?st (take 2 [''a'', ''b'', ''d'']) = [''c'']"
    by code_simp
  note T = set_builds_nested_nodes[OF h1 h2 h3, of fresh_world ?c1 ?c2]
  from T have c1: "snd (exec ascii_lib fresh_ctx ?c ?w) = None"
    by blast
  from T obtain st' where st':
    "store fresh_ctx (fst (exec ascii_lib fresh_ctx ?c ?w)) = Some st'"
    "lookup st' (normalizeKey ascii_lib (call_key ?c)) = Some (call_val ?c)"
    "\<forall>n<length (normalizeKey ascii_lib (call_key ?c)).
        keys_at st' (take n (normalizeKey ascii_lib (call_key ?c)))
          = (if normalizeKey ascii_lib (call_key ?c) ! n
                  \<in> set (keys_at ?st (take n (normalizeKey ascii_lib (call_key ?c))))
             then keys_at ?st (take n (normalizeKey ascii_lib (call_key ?c)))
             else keys_at ?st (take n (normalizeKey ascii_lib (call_key ?c)))
                    @ [normalizeKey ascii_lib (call_key ?c) ! n])"
    by blast
  from st'(2) have l: "lookup st' [''a'', ''b'', ''d''] = Some (VInt 2)"
    by (simp only: k call_val.simps)
  have lt: "(2::nat) < length [''a'', ''b'', ''d'']"
    by simp
  from st'(3)[unfolded k] lt have "keys_at st' (take 2 [''a'', ''b'', ''d''])
      = (if [''a'', ''b'', ''d''] ! 2 \<in> set (keys_at ?st (take 2 [''a'', ''b'', ''d'']))
         then keys_at ?st (take 2 [''a'', ''b'', ''d''])
         else keys_at ?st (take 2 [''a'', ''b'', ''d'']) @ [[''a'', ''b'', ''d''] ! 2])"
    by blast
  then have ks: "keys_at st' [''a'', ''b''] = [''c'', ''d'']"
    unfolding ka by simp
  from st'(1) l ks have c2: "\<exists>st'. store fresh_ctx (fst (exec ascii_lib fresh_ctx ?c ?w)) = Some st'
        \<and> lookup st' [''a'', ''b'', ''d''] = Some (VInt 2)
        \<and> keys_at st' [''a'', ''b''] = [''c'', ''d'']"
    by blast
  from T h0 have "fst (MarshalJSON ascii_lib fresh_ctx (fst (run ascii_lib fresh_ctx [?c1, ?c2] fresh_world)))
      = (case (json_value ascii_lib (call_val ?c1), json_value ascii_lib (call_val ?c2)) of
           (Some tx, Some ty) \<Rightarrow>
             ''{'' @ json_key ascii_lib ''a'' @ '':{'' @ json_key ascii_lib ''b'' @ '':{''
             @ json_key ascii_lib ''c'' @ '':'' @ tx @ '','' @ json_key ascii_lib ''d'' @ '':'' @ ty
             @ ''}}}''
         | _ \<Rightarrow> [])"
    by simp
  also have \<open>\<dots> = ''{"a":{"b":{"c":1,"d":"y"}}}''\<close>
    by code_simp
  finally have c3: \<open>fst (MarshalJSON ascii_lib fresh_ctx
        (fst (run ascii_lib fresh_ctx [?c1, ?c2] fresh_world))) = ''{"a":{"b":{"c":1,"d":"y"}}}''\<close> .
  from h1 h2 h3 c1 c2 h0 c3 show ?thesis
    by blast
qed

text \<open>
  As stated, for every initialized carrier, the claim fails: on a store that holds a
  string under \<^verbatim>\<open>a\<close>, \<^verbatim>\<open>SetInt("a.b.c", 5)\<close> panics and leaves the world as it was, so
  \<^verbatim>\<open>a\<close> still holds the string and the path a, b, c leads nowhere.
\<close>

theorem set_builds_nested_nodes_counterexample:
  \<open>store fresh_ctx (fst (run ascii_lib fresh_ctx [CallSetString ''a'' ''x''] fresh_world))
     = Some [(''a'', VString ''x'')]
   \<and> exec ascii_lib fresh_ctx (CallSetInt ''a.b.c'' 5)
        (fst (run ascii_lib fresh_ctx [CallSetString ''a'' ''x''] fresh_world))
     = (fst (run ascii_lib fresh_ctx [CallSetString ''a'' ''x''] fresh_world),
        Some TypeAssertionFailed)
   \<and> lookup [(''a'', VString ''x'')] [''a''] = Some (VString ''x'')
   \<and> lookup [(''a'', VString ''x'')] (normalizeKey ascii_lib ''a.b.c'') = None\<close>
proof -
  let ?w = "fst (run ascii_lib fresh_ctx [CallSetString ''a'' ''x''] fresh_world)"
  have h1: "store fresh_ctx ?w = Some [(''a'', VString ''x'')]"
    by code_simp
  have h2: "scalar_on_path [(''a'', VString ''x'')] (normalizeKey ascii_lib ''a.b.c'')"
    by code_simp
  have "exec ascii_lib fresh_ctx (CallSetInt ''a.b.c'' 5) ?w = (?w, Some TypeAssertionFailed)"
    using set_calls_blocked[OF h1 h2, of "VInt 5"]
    by (simp add: SetInt_def methods_on_values)
  moreover have "lookup [(''a'', VString ''x'')] [''a''] = Some (VString ''x'')"
    by code_simp
  moreover have "lookup [(''a'', VString ''x'')] (normalizeKey ascii_lib ''a.b.c'') = None"
    by code_simp
  ultimately show ?thesis using h1 by blast
qed

text \<open>
  C5 (as amended). A key reaches the store only through \<^verbatim>\<open>strings.ToLower\<close>: two keys with
  the same lower-cased form make each of the five accessors do the same thing, on every
  carrier and world. On an initialized carrier whose store holds no scalar under
  \<^verbatim>\<open>foo\<close>, \<^verbatim>\<open>SetInt("Foo.Bar", 1)\<close> followed by \<^verbatim>\<open>SetInt("foo.bar", 2)\<close> returns normally
  and leaves the world as \<^verbatim>\<open>SetInt("foo.bar", 2)\<close> alone would: the path foo, bar holds 2,
  the root has gained no key but \<^verbatim>\<open>foo\<close> and the map under \<^verbatim>\<open>foo\<close> no key but \<^verbatim>\<open>bar\<close>
  (each only if it was missing), and whatever was under a key \<^verbatim>\<open>Foo\<close> is as it was.
\<close>

theorem keys_are_lower_cased:
  assumes "store ctx w = Some st" and "\<not> scalar_on_path st [''foo'', ''bar'']"
  shows "(strings_ToLower L k = strings_ToLower L k' \<longrightarrow>
            SetString L ctx k s w1 = SetString L ctx k' s w1
          \<and> SetInt L ctx k i w1 = SetInt L ctx k' i w1
          \<and> SetFloat64 L ctx k f w1 = SetFloat64 L ctx k' f w1
          \<and> AddInt L ctx k i w1 = AddInt L ctx k' i w1
          \<and> AddFloat64 L ctx k f w1 = AddFloat64 L ctx k' f w1)
       \<and> run L ctx [CallSetInt ''Foo.Bar'' 1, CallSetInt ''foo.bar'' 2] w
           = SetInt L ctx ''foo.bar'' 2 w
       \<and> snd (run L ctx [CallSetInt ''Foo.Bar'' 1, CallSetInt ''foo.bar'' 2] w) = None
       \<and> (\<exists>st'. store ctx (fst (run L ctx [CallSetInt ''Foo.Bar'' 1, CallSetInt ''foo.bar'' 2] w))
                   = Some st'
              \<and> lookup st' [''foo'', ''bar''] = Some (VInt 2)
              \<and> keys_at st' [] = (if ''foo'' \<in> set (keys_at st []) then keys_at st []
                                   else keys_at st [] @ [''foo''])
              \<and> keys_at st' [''foo''] = (if ''bar'' \<in> set (keys_at st [''foo''])
                                          then keys_at st [''foo'']
                                          else keys_at st [''foo''] @ [''bar''])
              \<and> (\<forall>q. lookup st' (''Foo'' # q) = lookup st (''Foo'' # q)))"
proof -
  let ?c1 = "CallSetInt ''Foo.Bar'' 1" and ?c2 = "CallSetInt ''foo.bar'' 2"
  let ?ps = "[''foo'', ''bar'']"
  let ?st' = "fst (set_c ?ps st (VInt 2))"
  have nb: "\<not> blocked (VNode st) ?ps"
    using assms(2) by (simp add: scalar_on_path_def)
  have s1: "is_set ?c1" and s2: "is_set ?c2"
    by simp_all
  have nk: "normalizeKey L (call_key ?c1) = normalizeKey L (call_key ?c2)"
    by (simp add: normalizeKey_foo_bar)
  have k2: "normalizeKey L (call_key ?c2) = ?ps"
    by (simp add: normalizeKey_foo_bar)
  have ok1: "snd (exec L ctx ?c1 w) = None"
    using sets_on_store(2)[OF assms(1) s1, of L] set_c_not_blocked[OF _ nb]
    by (simp add: normalizeKey_foo_bar del: set_c.simps)
  have ok2: "snd (exec L ctx ?c2 w) = None"
    using sets_on_store(2)[OF assms(1) s2, of L] set_c_not_blocked[OF _ nb]
    by (simp add: normalizeKey_foo_bar del: set_c.simps)
  have r: "run L ctx [?c1, ?c2] w = exec L ctx ?c2 w"
    using ok1 set_then_set[OF s1 s2 nk, of ctx w]
    by (simp add: run_two del: run.simps exec.simps)
  have st: "store ctx (fst (exec L ctx ?c2 w)) = Some ?st'"
    using sets_on_store(1)[OF assms(1) s2, of L]
    by (simp add: normalizeKey_foo_bar del: set_c.simps exec.simps)
  have l: "lookup ?st' ?ps = Some (VInt 2)"
    by (rule lookup_set_c'[OF _ assms(2)]) simp
  have k0: "keys_at ?st' [] = (if ''foo'' \<in> set (keys_at st []) then keys_at st []
                                   else keys_at st [] @ [''foo''])"
    using keys_after_set_c[OF nb, of 0 "VInt 2"] by (simp del: set_c.simps)
  have k1: "keys_at ?st' [''foo''] = (if ''bar'' \<in> set (keys_at st [''foo''])
                                          then keys_at st [''foo'']
                                          else keys_at st [''foo''] @ [''bar''])"
    using keys_after_set_c[OF nb, of 1 "VInt 2"] by (simp del: set_c.simps)
  have fr: "\<forall>q. lookup ?st' (''Foo'' # q) = lookup st (''Foo'' # q)"
    using frame_set_c[of ?ps _ st "VInt 2"] by (simp del: set_c.simps)
  have A: "strings_ToLower L k = strings_ToLower L k' \<longrightarrow>
            SetString L ctx k s w1 = SetString L ctx k' s w1
          \<and> SetInt L ctx k i w1 = SetInt L ctx k' i w1
          \<and> SetFloat64 L ctx k f w1 = SetFloat64 L ctx k' f w1
          \<and> AddInt L ctx k i w1 = AddInt L ctx k' i w1
          \<and> AddFloat64 L ctx k f w1 = AddFloat64 L ctx k' f w1"
  proof
    assume e: "strings_ToLower L k = strings_ToLower L k'"
    show "SetString L ctx k s w1 = SetString L ctx k' s w1
          \<and> SetInt L ctx k i w1 = SetInt L ctx k' i w1
          \<and> SetFloat64 L ctx k f w1 = SetFloat64 L ctx k' f w1
          \<and> AddInt L ctx k i w1 = AddInt L ctx k' i w1
          \<and> AddFloat64 L ctx k f w1 = AddFloat64 L ctx k' f w1"
      using accessors_ToLower[OF e, of ctx _ w1] by simp
  qed
  have B: "run L ctx [?c1, ?c2] w = SetInt L ctx ''foo.bar'' 2 w"
    using r by (simp del: run.simps)
  have C: "snd (run L ctx [?c1, ?c2] w) = None"
    using r ok2 by (simp del: run.simps exec.simps)
  have D: "\<exists>st'. store ctx (fst (run L ctx [?c1, ?c2] w)) = Some st'
              \<and> lookup st' [''foo'', ''bar''] = Some (VInt 2)
              \<and> keys_at st' [] = (if ''foo'' \<in> set (keys_at st []) then keys_at st []
                                   else keys_at st [] @ [''foo''])
              \<and> keys_at st' [''foo''] = (if ''bar'' \<in> set (keys_at st [''foo''])
                                          then keys_at st [''foo'']
                                          else keys_at st [''foo''] @ [''bar''])
              \<and> (\<forall>q. lookup st' (''Foo'' # q) = lookup st (''Foo'' # q))"
    unfolding r using st l k0 k1 fr by blast
  from A B C D show ?thesis by blast
qed

theorem keys_are_lower_cased_witness:
  \<open>store fresh_ctx (fst (run ascii_lib fresh_ctx [CallSetInt ''foo.baz'' 7] fresh_world))
     = Some [(''foo'', VNode [(''baz'', VInt 7)])]
   \<and> \<not> scalar_on_path [(''foo'', VNode [(''baz'', VInt 7)])] [''foo'', ''bar'']
   \<and> strings_ToLower ascii_lib ''HTTP.Status'' = strings_ToLower ascii_lib ''http.status''
   \<and> SetInt ascii_lib fresh_ctx ''HTTP.Status'' 3 fresh_world
       = SetInt ascii_lib fresh_ctx ''http.status'' 3 fresh_world
   \<and> snd (run ascii_lib fresh_ctx [CallSetInt ''Foo.Bar'' 1, CallSetInt ''foo.bar'' 2]
        (fst (run ascii_lib fresh_ctx [CallSetInt ''foo.baz'' 7] fresh_world))) = None
   \<and> (\<exists>st'. store fresh_ctx
          (fst (run ascii_lib fresh_ctx [CallSetInt ''Foo.Bar'' 1, CallSetInt ''foo.bar'' 2]
             (fst (run ascii_lib fresh_ctx [CallSetInt ''foo.baz'' 7] fresh_world)))) = Some st'
        \<and> lookup st' [''foo'', ''bar''] = Some (VInt 2)
        \<and> keys_at st' [] = [''foo'']
        \<and> keys_at st' [''foo''] = [''baz'', ''bar''])\<close>
proof -
  let ?w = "fst (run ascii_lib fresh_ctx [CallSetInt ''foo.baz'' 7] fresh_world)"
  let ?st = "[(''foo'', VNode [(''baz'', VInt 7)])]"
  let ?r = "run ascii_lib fresh_ctx [CallSetInt ''Foo.Bar'' 1, CallSetInt ''foo.bar'' 2] ?w"
  have h1: "store fresh_ctx ?w = Some ?st"
    by code_simp
  have h2: "\<not> scalar_on_path ?st [''foo'', ''bar'']"
    by code_simp
  have e: "strings_ToLower ascii_lib ''HTTP.Status'' = strings_ToLower ascii_lib ''http.status''"
    by code_simp
  have k0: "keys_at ?st [] = [''foo'']" and k1: "keys_at ?st [''foo''] = [''baz'']"
    by code_simp+
  note T = keys_are_lower_cased[OF h1 h2,
      of ascii_lib "''HTTP.Status''" "''http.status''" "''''" fresh_world 3 0]
  from T e have c1: "SetInt ascii_lib fresh_ctx ''HTTP.Status'' 3 fresh_world
       = SetInt ascii_lib fresh_ctx ''http.status'' 3 fresh_world"
    by blast
  from T have c2: "snd ?r = None"
    by blast
  from T obtain st' where st': "store fresh_ctx (fst ?r) = Some st'"
    "lookup st' [''foo'', ''bar''] = Some (VInt 2)"
    "keys_at st' [] = (if ''foo'' \<in> set (keys_at ?st []) then keys_at ?st []
                       else keys_at ?st [] @ [''foo''])"
    "keys_at st' [''foo''] = (if ''bar'' \<in> set (keys_at ?st [''foo''])
                              then keys_at ?st [''foo'']
                              else keys_at ?st [''foo''] @ [''bar''])"
    by blast
  from st'(3) have s3: "keys_at st' [] = [''foo'']"
    unfolding k0 by simp
  from st'(4) have s4: "keys_at st' [''foo''] = [''baz'', ''bar'']"
    unfolding k1 by simp
  from st'(1,2) s3 s4 have c3: "\<exists>st'. store fresh_ctx (fst ?r) = Some st'
        \<and> lookup st' [''foo'', ''bar''] = Some (VInt 2)
        \<and> keys_at st' [] = [''foo'']
        \<and> keys_at st' [''foo''] = [''baz'', ''bar'']"
    by blast
  from h1 h2 e c1 c2 c3 show ?thesis
    by blast
qed

text \<open>
  As stated, for every initialized carrier, the example of the claim fails: on a store
  that holds the scalar 1 under \<^verbatim>\<open>foo\<close> the two calls panic and no path holds 2.
\<close>

theorem keys_are_lower_cased_counterexample:
  \<open>store fresh_ctx (fst (run ascii_lib fresh_ctx [CallSetInt ''foo'' 1] fresh_world))
     = Some [(''foo'', VInt 1)]
   \<and> snd (run ascii_lib fresh_ctx [CallSetInt ''Foo.Bar'' 1, CallSetInt ''foo.bar'' 2]
        (fst (run ascii_lib fresh_ctx [CallSetInt ''foo'' 1] fresh_world)))
     = Some TypeAssertionFailed
   \<and> store fresh_ctx
        (fst (run ascii_lib fresh_ctx [CallSetInt ''Foo.Bar'' 1, CallSetInt ''foo.bar'' 2]
           (fst (run ascii_lib fresh_ctx [CallSetInt ''foo'' 1] fresh_world))))
     = Some [(''foo'', VInt 1)]
   \<and> lookup [(''foo'', VInt 1)] [''foo'', ''bar''] \<noteq> Some (VInt 2)\<close>
  by code_simp

text \<open>
  C1 (as amended). Take a sequence of \<^verbatim>\<open>SetString\<close>/\<^verbatim>\<open>SetInt\<close>/\<^verbatim>\<open>SetFloat64\<close> calls on a
  carrier whose store is empty, such that of the normalized keys of any two calls neither
  is a prefix of the other (segment by segment; so they are pairwise distinct), no
  float set is NaN or an infinity, and no key has more than 10000 segments (the depth at
  which \<^verbatim>\<open>json.Marshal\<close> gives up). Then no call panics, and \<^verbatim>\<open>MarshalJSON\<close> returns the
  JSON object of the final store, in which every call's path leads to the value it set
  and the keys of the map at any path are exactly the next segments of the calls whose
  path runs through it, each once, in the order of the first call that brought it.
\<close>

theorem sets_then_MarshalJSON:
  assumes "store ctx w = Some []"
    and "\<forall>c \<in> set cs. is_set c"
    and "prefix_free (map (path_of L) cs)"
    and "\<forall>k f. CallSetFloat64 k f \<in> set cs \<longrightarrow> \<not> float64_exceptional f"
    and "\<forall>c \<in> set cs. length (path_of L c) \<le> maxNestingDepth"
  shows "snd (run L ctx cs w) = None
       \<and> (\<exists>st body. store ctx (fst (run L ctx cs w)) = Some st
            \<and> json_members L st = Some body
            \<and> fst (MarshalJSON L ctx (fst (run L ctx cs w))) = ''{'' @ body @ ''}''
            \<and> (\<forall>c \<in> set cs. lookup st (path_of L c) = Some (call_val c))
            \<and> (\<forall>q. keys_at st q
                  = first_seen (map (\<lambda>p. p ! length q)
                      (filter (strict_prefix q) (map (path_of L) cs)))))"
proof -
  have js: "\<forall>c \<in> set cs. json_value L (call_val c) \<noteq> None"
  proof
    fix c assume c: "c \<in> set cs"
    with assms(2) have "is_set c" by blast
    moreover have "\<forall>k f. c = CallSetFloat64 k f \<longrightarrow> \<not> float64_exceptional f"
      using assms(4) c by blast
    ultimately show "json_value L (call_val c) \<noteq> None"
      by (rule set_value_json)
  qed
  from run_sets_invariant[OF assms(1,2,3) js assms(5)] obtain st
    where ok: "snd (run L ctx cs w) = None"
    and st: "store ctx (fst (run L ctx cs w)) = Some st"
    and inv1: "\<forall>(p, u) \<in> set (map (\<lambda>c. (path_of L c, call_val c)) cs). lookup st p = Some u"
    and inv2: "\<forall>q. keys_at st q
        = first_seen (map (\<lambda>p. p ! length q)
            (filter (strict_prefix q) (map fst (map (\<lambda>c. (path_of L c, call_val c)) cs))))"
    and inv3: "json_value L (VNode st) \<noteq> None"
    by blast
  from inv3 have "json_members L st \<noteq> None" and depth: "nesting (VNode st) \<le> maxNestingDepth"
    using json_node_iff by blast+
  then obtain body where body: "json_members L st = Some body"
    by blast
  have out: "fst (MarshalJSON L ctx (fst (run L ctx cs w))) = ''{'' @ body @ ''}''"
    using st body depth by (simp add: MarshalJSON_store json_Marshal_def not_less)
  have vals: "\<forall>c \<in> set cs. lookup st (path_of L c) = Some (call_val c)"
    using inv1 by auto
  have e: "map fst (map (\<lambda>c. (path_of L c, call_val c)) cs) = map (path_of L) cs"
    by (simp add: comp_def)
  have keys: "\<forall>q. keys_at st q
      = first_seen (map (\<lambda>p. p ! length q) (filter (strict_prefix q) (map (path_of L) cs)))"
    by (rule inv2[unfolded e])
  from ok st body out vals keys show ?thesis
    by blast
qed

theorem sets_then_MarshalJSON_witness:
  \<open>store fresh_ctx fresh_world = Some []
   \<and> list_all is_set
         [CallSetString ''http.request.path'' ''/foo'',
          CallSetString ''http.request.code'' ''200'',
          CallSetInt ''http.response.duration_ms'' 10,
          CallSetFloat64 ''http.response.ratio'' 0x3FF8000000000000]
   \<and> prefix_free (map (path_of ascii_lib)
         [CallSetString ''http.request.path'' ''/foo'',
          CallSetString ''http.request.code'' ''200'',
          CallSetInt ''http.response.duration_ms'' 10,
          CallSetFloat64 ''http.response.ratio'' 0x3FF8000000000000])
   \<and> \<not> float64_exceptional 0x3FF8000000000000
   \<and> list_all (\<lambda>c. length (path_of ascii_lib c) \<le> maxNestingDepth)
         [CallSetString ''http.request.path'' ''/foo'',
          CallSetString ''http.request.code'' ''200'',
          CallSetInt ''http.response.duration_ms'' 10,
          CallSetFloat64 ''http.response.ratio'' 0x3FF8000000000000]
   \<and> snd (run ascii_lib fresh_ctx
         [CallSetString ''http.request.path'' ''/foo'',
          CallSetString ''http.request.code'' ''200'',
          CallSetInt ''http.response.duration_ms'' 10,
          CallSetFloat64 ''http.response.ratio'' 0x3FF8000000000000] fresh_world) = None
   \<and> (\<exists>st. store fresh_ctx (fst (run ascii_lib fresh_ctx
         [CallSetString ''http.request.path'' ''/foo'',
          CallSetString ''http.request.code'' ''200'',
          CallSetInt ''http.response.duration_ms'' 10,
          CallSetFloat64 ''http.response.ratio'' 0x3FF8000000000000] fresh_world)) = Some st
        \<and> lookup st [''http'', ''request'', ''code''] = Some (VString ''200'')
        \<and> keys_at st [''http''] = [''request'', ''response'']
        \<and> keys_at st [''http'', ''response''] = [''duration_ms'', ''ratio''])\<close>
proof -
  let ?cs = "[CallSetString ''http.request.path'' ''/foo'',
          CallSetString ''http.request.code'' ''200'',
          CallSetInt ''http.response.duration_ms'' 10,
          CallSetFloat64 ''http.response.ratio'' 0x3FF8000000000000]"
  have h1: "store fresh_ctx fresh_world = Some []"
    by code_simp
  have h2: "\<forall>c \<in> set ?cs. is_set c"
    by simp
  have h3: "prefix_free (map (path_of ascii_lib) ?cs)"
    by code_simp
  have fin: "\<not> float64_exceptional 0x3FF8000000000000"
    by code_simp
  have h4: "\<forall>k f. CallSetFloat64 k f \<in> set ?cs \<longrightarrow> \<not> float64_exceptional f"
    using fin by simp
  have p2: "path_of ascii_lib (CallSetString ''http.request.code'' ''200'')
      = [''http'', ''request'', ''code'']"
    by code_simp
  have k1: "first_seen (map (\<lambda>p. p ! length [''http''])
         (filter (strict_prefix [''http'']) (map (path_of ascii_lib) ?cs)))
      = [''request'', ''response'']"
    by code_simp
  have k2: "first_seen (map (\<lambda>p. p ! length [''http'', ''response''])
         (filter (strict_prefix [''http'', ''response'']) (map (path_of ascii_lib) ?cs)))
      = [''duration_ms'', ''ratio'']"
    by code_simp
  have h5': "list_all (\<lambda>c. length (path_of ascii_lib c) \<le> maxNestingDepth) ?cs"
    by code_simp
  then have h5: "\<forall>c \<in> set ?cs. length (path_of ascii_lib c) \<le> maxNestingDepth"
    by (simp only: list_all_iff)
  note T = sets_then_MarshalJSON[OF h1 h2 h3 h4 h5]
  from T have c1: "snd (run ascii_lib fresh_ctx ?cs fresh_world) = None"
    by blast
  from T obtain st where st: "store fresh_ctx (fst (run ascii_lib fresh_ctx ?cs fresh_world)) = Some st"
    and vals: "\<forall>c \<in> set ?cs. lookup st (path_of ascii_lib c) = Some (call_val c)"
    and keys: "\<forall>q. keys_at st q
        = first_seen (map (\<lambda>p. p ! length q)
            (filter (strict_prefix q) (map (path_of ascii_lib) ?cs)))"
    by blast
  from vals have "lookup st (path_of ascii_lib (CallSetString ''http.request.code'' ''200''))
      = Some (call_val (CallSetString ''http.request.code'' ''200''))"
    by simp
  then have l: "lookup st [''http'', ''request'', ''code''] = Some (VString ''200'')"
    by (simp only: p2 call_val.simps)
  from keys have a1: "keys_at st [''http''] = [''request'', ''response'']"
    by (simp only: k1)
  from keys have a2: "keys_at st [''http'', ''response''] = [''duration_ms'', ''ratio'']"
    by (simp only: k2)
  from st l a1 a2 have c2: "\<exists>st. store fresh_ctx (fst (run ascii_lib fresh_ctx ?cs fresh_world)) = Some st
        \<and> lookup st [''http'', ''request'', ''code''] = Some (VString ''200'')
        \<and> keys_at st [''http''] = [''request'', ''response'']
        \<and> keys_at st [''http'', ''response''] = [''duration_ms'', ''ratio'']"
    by blast
  have h2': "list_all is_set ?cs"
    by simp
  from h1 h2' h3 fin h5' c1 c2 show ?thesis
    by blast
qed

text \<open>
  As stated the claim fails three times. The keys \<^verbatim>\<open>a.b\<close> and \<^verbatim>\<open>a\<close> are distinct, yet
  after \<^verbatim>\<open>SetInt("a.b", 1)\<close> and \<^verbatim>\<open>SetInt("a", 2)\<close> the output is \<^verbatim>\<open>{"a":2}\<close> and the
  key \<^verbatim>\<open>a.b\<close> is gone. After \<^verbatim>\<open>SetFloat64("x", NaN)\<close> the output is the empty string,
  not a JSON object. And after one \<^verbatim>\<open>SetInt\<close> whose key has 10001 segments
  (\<^verbatim>\<open>a.a. ... .a\<close>) the output is the empty string as well.
\<close>

theorem sets_then_MarshalJSON_counterexample:
  \<open>(path_of ascii_lib (CallSetInt ''a.b'' 1) \<noteq> path_of ascii_lib (CallSetInt ''a'' 2)
   \<and> snd (run ascii_lib fresh_ctx [CallSetInt ''a.b'' 1, CallSetInt ''a'' 2] fresh_world) = None
   \<and> fst (MarshalJSON ascii_lib fresh_ctx
        (fst (run ascii_lib fresh_ctx [CallSetInt ''a.b'' 1, CallSetInt ''a'' 2] fresh_world)))
     = ''{"a":2}''
   \<and> store fresh_ctx
        (fst (run ascii_lib fresh_ctx [CallSetInt ''a.b'' 1, CallSetInt ''a'' 2] fresh_world))
     = Some [(''a'', VInt 2)]
   \<and> lookup [(''a'', VInt 2)] (path_of ascii_lib (CallSetInt ''a.b'' 1)) = None
   \<and> snd (run ascii_lib fresh_ctx [CallSetFloat64 ''x'' 0x7FF8000000000000] fresh_world) = None
   \<and> fst (MarshalJSON ascii_lib fresh_ctx
        (fst (run ascii_lib fresh_ctx [CallSetFloat64 ''x'' 0x7FF8000000000000] fresh_world)))
     = [])
   \<and> length (path_of ascii_lib (CallSetInt (concat (replicate 10000 ''a.'') @ ''a'') 1)) = 10001
   \<and> fst (MarshalJSON ascii_lib fresh_ctx
        (fst (run ascii_lib fresh_ctx
           [CallSetInt (concat (replicate 10000 ''a.'') @ ''a'') 1] fresh_world)))
     = []\<close>
proof -
  have two: \<open>path_of ascii_lib (CallSetInt ''a.b'' 1) \<noteq> path_of ascii_lib (CallSetInt ''a'' 2)
   \<and> snd (run ascii_lib fresh_ctx [CallSetInt ''a.b'' 1, CallSetInt ''a'' 2] fresh_world) = None
   \<and> fst (MarshalJSON ascii_lib fresh_ctx
        (fst (run ascii_lib fresh_ctx [CallSetInt ''a.b'' 1, CallSetInt ''a'' 2] fresh_world)))
     = ''{"a":2}''
   \<and> store fresh_ctx
        (fst (run ascii_lib fresh_ctx [CallSetInt ''a.b'' 1, CallSetInt ''a'' 2] fresh_world))
     = Some [(''a'', VInt 2)]
   \<and> lookup [(''a'', VInt 2)] (path_of ascii_lib (CallSetInt ''a.b'' 1)) = None
   \<and> snd (run ascii_lib fresh_ctx [CallSetFloat64 ''x'' 0x7FF8000000000000] fresh_world) = None
   \<and> fst (MarshalJSON ascii_lib fresh_ctx
        (fst (run ascii_lib fresh_ctx [CallSetFloat64 ''x'' 0x7FF8000000000000] fresh_world)))
     = []\<close>
    by code_simp
  have h0: "store fresh_ctx fresh_world = Some []"
    by code_simp
  have len: "length (normalizeKey ascii_lib (concat (replicate 10000 ''a.'') @ ''a'')) = 10001"
    by (simp only: deep_key_path length_replicate)
  then have deep: "maxNestingDepth
      < length (normalizeKey ascii_lib (concat (replicate 10000 ''a.'') @ ''a''))"
    by (simp add: maxNestingDepth_def)
  have out: "fst (MarshalJSON ascii_lib fresh_ctx
        (fst (run ascii_lib fresh_ctx
           [CallSetInt (concat (replicate 10000 ''a.'') @ ''a'') 1] fresh_world))) = []"
    by (rule deep_key_MarshalJSON[OF h0 deep])
  have len': "length (path_of ascii_lib (CallSetInt (concat (replicate 10000 ''a.'') @ ''a'') 1))
      = 10001"
    using len by (simp only: path_of_def call_key.simps)
  from two len' out show ?thesis
    by blast
qed

end
